theory Spec2Isabelle
  imports Complex_Main "HOL-Library.Multiset" "HOL-Library.Sublist" "HOL-Library.Log_Nat"
begin

section \<open>Strings as the question splitter uses them\<close>

text \<open>
  The development embeds \<^verbatim>\<open>question_splitter.py\<close>: the Word-text segmenter
  (\<^verbatim>\<open>WordQuestionExtractor\<close>), the markup extractor (\<^verbatim>\<open>XMLQuestionExtractor\<close>), the
  fuzzy matcher (\<^verbatim>\<open>QuestionMatcher\<close>) and the driver (\<^verbatim>\<open>QuestionSplitter\<close>).
  Strings are lists of characters, a character being a code point below 256; text with
  other characters is outside the model. The character classes are those of Python for
  these code points: white space as \<^verbatim>\<open>str.isspace\<close> and \<^verbatim>\<open>\s\<close> have it, the decimal
  digits, the letters of \<^verbatim>\<open>[A-Z]\<close> under \<^verbatim>\<open>re.IGNORECASE\<close>, the word characters of
  \<^verbatim>\<open>\w\<close>, and \<^verbatim>\<open>str.lower\<close>.
\<close>

definition newline :: char where
  "newline = CHR 0x0A"

definition is_space :: "char \<Rightarrow> bool" where
  "is_space c = (c \<in> set [CHR 0x09, CHR 0x0A, CHR 0x0B, CHR 0x0C, CHR 0x0D,
                          CHR 0x1C, CHR 0x1D, CHR 0x1E, CHR 0x1F, CHR 0x20,
                          CHR 0x85, CHR 0xA0])"

definition is_digit :: "char \<Rightarrow> bool" where
  "is_digit c = (c \<in> set ''0123456789'')"

definition is_lower :: "char \<Rightarrow> bool" where
  "is_lower c = (c \<in> set ''abcdefghijklmnopqrstuvwxyz'')"

definition is_upper :: "char \<Rightarrow> bool" where
  "is_upper c = (c \<in> set ''ABCDEFGHIJKLMNOPQRSTUVWXYZ'')"

text \<open>The capital letters beyond ASCII: code points 192 to 222 but for the
  multiplication sign.\<close>

definition is_latin_upper :: "char \<Rightarrow> bool" where
  "is_latin_upper c = (192 \<le> (of_char c :: nat) \<and> (of_char c :: nat) \<le> 222 \<and> c \<noteq> CHR 0xD7)"

definition lower_char :: "char \<Rightarrow> char" where
  "lower_char c =
     (if is_upper c \<or> is_latin_upper c then char_of (of_char c + (32::nat)) else c)"

definition lower :: "string \<Rightarrow> string" where
  "lower s = map lower_char s"

text \<open>\<^verbatim>\<open>str.strip()\<close>: white space is dropped at both ends.\<close>

definition strip :: "string \<Rightarrow> string" where
  "strip s = rev (dropWhile is_space (rev (dropWhile is_space s)))"

text \<open>\<^verbatim>\<open>str.split('\n')\<close>: the empty string gives one empty piece.\<close>

fun split_nl :: "string \<Rightarrow> string list" where
  "split_nl [] = [] # []"
| "split_nl (c # cs) =
     (if c = newline then [] # split_nl cs
      else (case split_nl cs of [] \<Rightarrow> [c] # [] | l # ls \<Rightarrow> (c # l) # ls))"

text \<open>\<^verbatim>\<open>'\n'.join(lines)\<close>.\<close>

fun join_nl :: "string list \<Rightarrow> string" where
  "join_nl [] = []"
| "join_nl [l] = l"
| "join_nl (l # m # ls) = l @ [newline] @ join_nl (m # ls)"

text \<open>
  \<^verbatim>\<open>s.replace(old, '')\<close>: every occurrence of \<open>old\<close> is deleted, scanning from the
  left without overlap. The comparison of characters is a parameter, so that the same
  scan serves the case-insensitive \<^verbatim>\<open>re.sub\<close> of a literal phrase.
\<close>

fun starts_with :: "(char \<Rightarrow> char \<Rightarrow> bool) \<Rightarrow> string \<Rightarrow> string \<Rightarrow> bool" where
  "starts_with eq [] s = True"
| "starts_with eq (p # ps) [] = False"
| "starts_with eq (p # ps) (c # cs) = (eq p c \<and> starts_with eq ps cs)"

function delete_all :: "(char \<Rightarrow> char \<Rightarrow> bool) \<Rightarrow> string \<Rightarrow> string \<Rightarrow> string" where
  "delete_all eq old [] = []"
| "delete_all eq old (c # cs) =
     (if old \<noteq> [] \<and> starts_with eq old (c # cs)
      then delete_all eq old (drop (length old) (c # cs))
      else c # delete_all eq old cs)"
  by pat_completeness auto
termination
  by (relation "measure (\<lambda>(eq, old, s). length s)") (auto simp: neq_Nil_conv)

definition replace_empty :: "string \<Rightarrow> string \<Rightarrow> string" where
  "replace_empty s old = delete_all (=) old s"

section \<open>The numbering patterns\<close>

text \<open>
  Each of the eight regular expressions of \<^verbatim>\<open>question_patterns\<close> is a sequence of
  quantified character classes followed by the group \<^verbatim>\<open>(.+)\<close>. They are compiled with
  \<^verbatim>\<open>re.IGNORECASE\<close>, so a class of letters matches both cases. The matcher follows the
  backtracking order of \<^verbatim>\<open>re\<close>: a greedy quantifier first takes as much as it can and
  gives characters back one at a time.
\<close>

datatype cclass = Space | Digit | Letter | OneOf string

datatype quant = One | Opt | Star | Plus

type_synonym pattern = "(cclass \<times> quant) list"

fun cmatch :: "cclass \<Rightarrow> char \<Rightarrow> bool" where
  "cmatch Space c = is_space c"
| "cmatch Digit c = is_digit c"
| "cmatch Letter c = (is_upper c \<or> is_lower c)"
| "cmatch (OneOf cs) c = (lower_char c \<in> set (lower cs))"

text \<open>
  \<open>re_match p s\<close> is the rest of \<open>s\<close> at which the group \<^verbatim>\<open>(.+)\<close> starts, for the
  first way of matching the classes of \<open>p\<close> that leaves the group at least one
  character other than a line break; \<open>None\<close> when there is none.
\<close>

fun re_match :: "pattern \<Rightarrow> string \<Rightarrow> string option" where
  "re_match [] s = (if takeWhile (\<lambda>c. c \<noteq> newline) s \<noteq> [] then Some s else None)"
| "re_match ((c, One) # p) [] = None"
| "re_match ((c, One) # p) (x # xs) = (if cmatch c x then re_match p xs else None)"
| "re_match ((c, Opt) # p) [] = re_match p []"
| "re_match ((c, Opt) # p) (x # xs) =
     (if cmatch c x
      then (case re_match p xs of Some r \<Rightarrow> Some r | None \<Rightarrow> re_match p (x # xs))
      else re_match p (x # xs))"
| "re_match ((c, Star) # p) [] = re_match p []"
| "re_match ((c, Star) # p) (x # xs) =
     (if cmatch c x
      then (case re_match ((c, Star) # p) xs of Some r \<Rightarrow> Some r | None \<Rightarrow> re_match p (x # xs))
      else re_match p (x # xs))"
| "re_match ((c, Plus) # p) [] = None"
| "re_match ((c, Plus) # p) (x # xs) =
     (if cmatch c x then re_match ((c, Star) # p) xs else None)"

text \<open>
  The patterns, in the order of the source:
  \<^verbatim>\<open>^\s*[qsQS]\d+[.\)]*\s*(.+)\<close>,
  \<^verbatim>\<open>^\s*\[?[qsQS]\d+\]?\s*(.+)\<close>,
  \<^verbatim>\<open>^\s*\(?[qsQS]\d+\)?\s*(.+)\<close>,
  \<^verbatim>\<open>^\s*\d+[.\)]\s*(.+)\<close>,
  \<^verbatim>\<open>^\s*[A-Z]\d+[.\)]*\s*(.+)\<close>,
  \<^verbatim>\<open>^\s*Question\s+\d+[:\.]?\s*(.+)\<close>,
  \<^verbatim>\<open>^\s*[A-Z]+\d*[.\)]\s*(.+)\<close>,
  \<^verbatim>\<open>^\s*\d+\.\d+\s*(.+)\<close>.
\<close>

definition lit :: "string \<Rightarrow> pattern" where
  "lit s = map (\<lambda>c. (OneOf [c], One)) s"

definition question_patterns :: "pattern list" where
  "question_patterns =
    [ [(Space, Star), (OneOf ''qsQS'', One), (Digit, Plus), (OneOf ''.)'', Star), (Space, Star)],
      [(Space, Star), (OneOf ''['', Opt), (OneOf ''qsQS'', One), (Digit, Plus), (OneOf '']'', Opt),
       (Space, Star)],
      [(Space, Star), (OneOf ''('', Opt), (OneOf ''qsQS'', One), (Digit, Plus), (OneOf '')'', Opt),
       (Space, Star)],
      [(Space, Star), (Digit, Plus), (OneOf ''.)'', One), (Space, Star)],
      [(Space, Star), (Letter, One), (Digit, Plus), (OneOf ''.)'', Star), (Space, Star)],
      [(Space, Star)] @ lit ''Question'' @
        [(Space, Plus), (Digit, Plus), (OneOf '':.'', Opt), (Space, Star)],
      [(Space, Star), (Letter, Plus), (Digit, Star), (OneOf ''.)'', One), (Space, Star)],
      [(Space, Star), (Digit, Plus), (OneOf ''.'', One), (Digit, Plus), (Space, Star)] ]"

text \<open>
  \<open>first_match ps s\<close> is \<^verbatim>\<open>(match.group(0), match.group(1))\<close> of the first pattern that
  matches \<open>s\<close>: the group is the run up to the next line break, and the whole match is
  everything before the group followed by the group.
\<close>

fun first_match :: "pattern list \<Rightarrow> string \<Rightarrow> (string \<times> string) option" where
  "first_match [] s = None"
| "first_match (p # ps) s =
     (case re_match p s of
        Some r \<Rightarrow> (let g = takeWhile (\<lambda>c. c \<noteq> newline) r
                  in Some (take (length s - length r) s @ g, g))
      | None \<Rightarrow> first_match ps s)"

section \<open>WordQuestionExtractor\<close>

definition is_question_start :: "string \<Rightarrow> bool" where
  "is_question_start paragraph =
     (let paragraph = strip paragraph
      in if paragraph = [] then False
         else first_match question_patterns paragraph \<noteq> None)"

definition extract_question_number :: "string \<Rightarrow> string" where
  "extract_question_number paragraph =
     (let paragraph = strip paragraph
      in case first_match question_patterns paragraph of
           Some (full_match, question_text) \<Rightarrow> strip (replace_empty full_match question_text)
         | None \<Rightarrow> [])"

definition extract_question_text :: "string \<Rightarrow> string" where
  "extract_question_text paragraph =
     (let paragraph = strip paragraph
      in case first_match question_patterns paragraph of
           Some (full_match, question_text) \<Rightarrow> strip question_text
         | None \<Rightarrow> paragraph)"

record word_question =
  number :: string
  word_text :: string
  full_content :: string
  word_index :: nat

text \<open>
  The local variables of \<^verbatim>\<open>extract_questions\<close>. \<open>current_question\<close> is \<open>None\<close> or a
  string; Python's \<^verbatim>\<open>if current_question:\<close> holds for a non-empty string only.
\<close>

record seg_state =
  questions :: "word_question list"
  current_question :: "string option"
  current_content :: "string list"
  current_number :: string

definition truthy :: "string option \<Rightarrow> bool" where
  "truthy q = (case q of None \<Rightarrow> False | Some s \<Rightarrow> s \<noteq> [])"

definition paragraphs :: "string \<Rightarrow> string list" where
  "paragraphs docx_text = filter (\<lambda>p. p \<noteq> []) (map strip (split_nl docx_text))"

text \<open>Appending the open question, if there is one, to the list of questions.\<close>

definition save_question :: "seg_state \<Rightarrow> word_question list" where
  "save_question st =
     (case current_question st of
        None \<Rightarrow> questions st
      | Some q \<Rightarrow>
          if q \<noteq> [] then
            questions st @
              [\<lparr>number = current_number st, word_text = q,
                full_content = join_nl (current_content st),
                word_index = length (questions st)\<rparr>]
          else questions st)"

text \<open>
  The \<^verbatim>\<open>for\<close> loop over the paragraphs. The \<^verbatim>\<open>break\<close> of the content limit leaves the
  loop: the remaining paragraphs are not looked at.
\<close>

fun segment_loop :: "int \<Rightarrow> string list \<Rightarrow> seg_state \<Rightarrow> seg_state" where
  "segment_loop content_limit_chars [] st = st"
| "segment_loop content_limit_chars (para # ps) st =
     (if is_question_start para then
        segment_loop content_limit_chars ps
          \<lparr>questions = save_question st,
           current_question = Some (extract_question_text para),
           current_content = [para],
           current_number = extract_question_number para\<rparr>
      else if truthy (current_question st) \<and> para \<noteq> [] then
        (let st' = st\<lparr>current_content := current_content st @ [para]\<rparr>;
             total_chars = sum_list (map length (current_content st'))
         in if int total_chars > content_limit_chars then st'
            else segment_loop content_limit_chars ps st')
      else segment_loop content_limit_chars ps st)"

definition initial_state :: seg_state where
  "initial_state =
     \<lparr>questions = [], current_question = None, current_content = [], current_number = []\<rparr>"

definition word_extract_questions :: "int \<Rightarrow> string \<Rightarrow> word_question list" where
  "word_extract_questions content_limit_chars docx_text =
     save_question (segment_loop content_limit_chars (paragraphs docx_text) initial_state)"

section \<open>XMLQuestionExtractor\<close>

text \<open>
  An element of the parsed tree, as \<^verbatim>\<open>lxml\<close> presents it: its tag, its attributes,
  the text before its first child, its children in document order, and the text that
  follows it. Parsing and serialising belong to \<^verbatim>\<open>lxml\<close>; they are parameters of the
  model: \<open>fromstring\<close> is \<open>None\<close> where \<^verbatim>\<open>etree.fromstring\<close> raises, and \<open>tostring\<close>
  stands for \<^verbatim>\<open>etree.tostring(e, encoding='unicode', pretty_print=True)\<close>.
\<close>

datatype xml =
  Element (tag: string) (attrib: "(string \<times> string) list") (etext: "string option")
    (children: "xml list") (tail: "string option")

record lxml =
  fromstring :: "string \<Rightarrow> xml option"
  tostring :: "xml \<Rightarrow> string"

record xml_question =
  xml_id :: string
  xml_text :: string
  full_section :: string
  xml_index :: nat

text \<open>
  \<^verbatim>\<open>root.xpath('//title[@id]')\<close>: the \<^verbatim>\<open>title\<close> elements that carry an \<^verbatim>\<open>id\<close>, in
  document order, the root included. Each comes with its chain of ancestors, nearest
  first, which is what repeated \<^verbatim>\<open>getparent()\<close> walks.
\<close>

fun title_elements :: "xml list \<Rightarrow> xml \<Rightarrow> (xml list \<times> xml) list" where
  "title_elements ancestors (Element t a x cs y) =
     (if t = ''title'' \<and> map_of a ''id'' \<noteq> None
      then [(ancestors, Element t a x cs y)] else [])
     @ concat (map (title_elements (Element t a x cs y # ancestors)) cs)"

definition section_tags :: "string list" where
  "section_tags = [''suspend'', ''page'', ''question'', ''exec'']"

text \<open>
  The \<^verbatim>\<open>while\<close> loop: \<open>parent\<close> climbs until it is \<open>None\<close> or its tag is one of the
  section tags.
\<close>

fun climb :: "xml list \<Rightarrow> xml option" where
  "climb [] = None"
| "climb (parent # up) = (if tag parent \<notin> set section_tags then climb up else Some parent)"

definition section_of :: "lxml \<Rightarrow> xml list \<Rightarrow> xml \<Rightarrow> string" where
  "section_of lx ancestors title =
     (case climb ancestors of
        Some parent \<Rightarrow> tostring lx parent
      | None \<Rightarrow>
          (case ancestors of
             context_parent # up \<Rightarrow> tostring lx context_parent
           | [] \<Rightarrow> tostring lx title))"

definition get_id :: "xml \<Rightarrow> string" where
  "get_id title = (case map_of (attrib title) ''id'' of Some v \<Rightarrow> v | None \<Rightarrow> [])"

definition text_or_empty :: "xml \<Rightarrow> string" where
  "text_or_empty title = (case etext title of Some t \<Rightarrow> t | None \<Rightarrow> [])"

text \<open>One round of the loop over the title elements; the state is the list of
  questions and the set of identifiers seen.\<close>

definition title_step ::
  "lxml \<Rightarrow> xml list \<times> xml \<Rightarrow> xml_question list \<times> string set \<Rightarrow> xml_question list \<times> string set" where
  "title_step lx found st =
     (case found of (ancestors, title) \<Rightarrow>
      case st of (xml_questions, seen_question_ids) \<Rightarrow>
        let question_id = get_id title;
            question_text = text_or_empty title
        in if question_id \<in> seen_question_ids \<or> strip question_text = [] then st
           else (xml_questions @
                   [\<lparr>xml_id = question_id, xml_text = strip question_text,
                     full_section = section_of lx ancestors title,
                     xml_index = length xml_questions\<rparr>],
                 insert question_id seen_question_ids))"

definition xml_extract_tree :: "lxml \<Rightarrow> xml \<Rightarrow> xml_question list" where
  "xml_extract_tree lx tree = fst (fold (title_step lx) (title_elements [] tree) ([], {}))"

definition xml_extract_questions :: "lxml \<Rightarrow> string \<Rightarrow> xml_question list" where
  "xml_extract_questions lx xml_content =
     (case fromstring lx xml_content of
        None \<Rightarrow> []
      | Some tree \<Rightarrow> xml_extract_tree lx tree)"

text \<open>
  The fallback chain in the words of the specification: the nearest ancestor whose tag
  is a section tag; without one, the immediate parent; without a parent, the title
  element itself.
\<close>

definition content_source :: "xml list \<Rightarrow> xml \<Rightarrow> xml" where
  "content_source ancestors title =
     (case find (\<lambda>a. tag a \<in> set section_tags) ancestors of
        Some a \<Rightarrow> a
      | None \<Rightarrow> (case ancestors of [] \<Rightarrow> title | parent # up \<Rightarrow> parent))"

text \<open>\<open>is_chain e up\<close>: each element of \<open>e # up\<close> is a child of the next one.\<close>

fun is_chain :: "xml \<Rightarrow> xml list \<Rightarrow> bool" where
  "is_chain e [] = True"
| "is_chain e (parent # up) = (e \<in> set (children parent) \<and> is_chain parent up)"

section \<open>QuestionMatcher\<close>

text \<open>
  The three ratios of \<^verbatim>\<open>fuzzywuzzy.fuzz\<close> are parameters: each returns an integer
  percentage. Scores and the threshold are floats; a float is modelled by the rational
  number it stands for.
\<close>

record fuzz =
  ratio :: "string \<Rightarrow> string \<Rightarrow> int"
  partial_ratio :: "string \<Rightarrow> string \<Rightarrow> int"
  token_sort_ratio :: "string \<Rightarrow> string \<Rightarrow> int"

text \<open>\<^verbatim>\<open>re.sub(r'\s+', ' ', text)\<close>: each run of white space becomes one blank.\<close>

function collapse_spaces :: "string \<Rightarrow> string" where
  "collapse_spaces [] = []"
| "collapse_spaces (c # cs) =
     (if is_space c then CHR '' '' # collapse_spaces (dropWhile is_space cs)
      else c # collapse_spaces cs)"
  by pat_completeness auto
termination
  by (relation "measure length") (auto simp: less_Suc_eq_le length_dropWhile_le)

definition artifacts :: "string list" where
  "artifacts =
     [''(please select one)'', ''(select all that apply)'', ''(check all that apply)'',
      ''(single response)'', ''(multiple response)'']"

definition same_letter :: "char \<Rightarrow> char \<Rightarrow> bool" where
  "same_letter a b = (lower_char a = lower_char b)"

text \<open>\<^verbatim>\<open>\w\<close>: letters, digits and the underscore; beyond ASCII the ordinal indicators,
  the micro sign, the superscript digits, the fractions and the accented letters.\<close>

definition is_word :: "char \<Rightarrow> bool" where
  "is_word c =
     (is_upper c \<or> is_lower c \<or> is_digit c \<or> c = CHR ''_''
      \<or> c \<in> set [CHR 0xAA, CHR 0xB2, CHR 0xB3, CHR 0xB5, CHR 0xB9, CHR 0xBA,
                   CHR 0xBC, CHR 0xBD, CHR 0xBE]
      \<or> (192 \<le> (of_char c :: nat) \<and> c \<noteq> CHR 0xD7 \<and> c \<noteq> CHR 0xF7))"

definition normalize_text :: "string \<Rightarrow> string" where
  "normalize_text text0 =
     (let text1 = strip (collapse_spaces text0);
          text2 = fold (\<lambda>artifact t. delete_all same_letter artifact t) artifacts text1;
          text3 = map (\<lambda>c. if is_word c \<or> is_space c \<or> c = CHR ''?'' then c else CHR '' '') text2;
          text4 = strip (collapse_spaces text3)
      in lower text4)"

text \<open>
  Python's \<^verbatim>\<open>float\<close> is the IEEE 754 double. \<open>double x\<close> is the double nearest to the
  rational \<open>x\<close>, ties going to the even significand. For a positive \<open>x\<close>, \<open>binade x\<close> is
  the exponent \<open>e\<close> with \<open>2 powi e \<le> x < 2 powi (e + 1)\<close>; the doubles of that binade are
  the multiples of \<open>2 powi (e - 52)\<close>, and below \<open>2 powi (- 1022)\<close> the spacing stays that
  of the subnormal numbers. Every arithmetic operation on floats returns the exact
  result rounded in this way. Overflow to infinity is not modelled; no value of the
  scorer comes near it.
\<close>

definition round_half_even :: "rat \<Rightarrow> int" where
  "round_half_even x =
     (let f = \<lfloor>x\<rfloor>; d = x - of_int f
      in if d < 1 / 2 then f else if 1 / 2 < d then f + 1 else if even f then f else f + 1)"

definition binade :: "rat \<Rightarrow> int" where
  "binade x =
     (case quotient_of x of (p, q) \<Rightarrow>
        let k = bitlen p - bitlen q in if 2 powi k \<le> x then k else k - 1)"

definition ulp :: "rat \<Rightarrow> rat" where
  "ulp x = 2 powi (max (binade x) (- 1022) - 52)"

definition double :: "rat \<Rightarrow> rat" where
  "double x =
     (if x = 0 then 0
      else if 0 < x then of_int (round_half_even (x / ulp x)) * ulp x
      else - (of_int (round_half_even (- x / ulp (- x))) * ulp (- x)))"

text \<open>
  \<^verbatim>\<open>fuzz.ratio(norm1, norm2) / 100.0\<close> converts the integer to a float and divides;
  \<^verbatim>\<open>ratio * 0.3 + partial_ratio * 0.3 + token_sort_ratio * 0.4\<close> multiplies by the doubles
  nearest to \<open>3/10\<close> and \<open>4/10\<close> and adds from the left. Each step is rounded.
\<close>

definition calculate_similarity :: "fuzz \<Rightarrow> string \<Rightarrow> string \<Rightarrow> rat" where
  "calculate_similarity fz text1 text2 =
     (let norm1 = normalize_text text1;
          norm2 = normalize_text text2;
          r = double (double (of_int (ratio fz norm1 norm2)) / 100);
          p = double (double (of_int (partial_ratio fz norm1 norm2)) / 100);
          t = double (double (of_int (token_sort_ratio fz norm1 norm2)) / 100)
      in double (double (double (r * double (3 / 10)) + double (p * double (3 / 10)))
                 + double (t * double (4 / 10))))"

text \<open>One round of the loop of \<^verbatim>\<open>find_best_match\<close> over the candidates.\<close>

definition best_step ::
  "fuzz \<Rightarrow> string \<Rightarrow> xml_question \<Rightarrow> xml_question option \<times> rat \<Rightarrow> xml_question option \<times> rat" where
  "best_step fz w_text xml_q best =
     (case best of (best_match, best_score) \<Rightarrow>
        let score = calculate_similarity fz w_text (xml_text xml_q)
        in if score > best_score then (Some xml_q, score) else (best_match, best_score))"

text \<open>
  The result is \<open>None\<close> or the pair \<^verbatim>\<open>(best_match, best_score)\<close>, whose first
  component is still \<^verbatim>\<open>None\<close> when no candidate scored above zero.
\<close>

definition find_best_match ::
  "fuzz \<Rightarrow> rat \<Rightarrow> word_question \<Rightarrow> xml_question list \<Rightarrow> (xml_question option \<times> rat) option" where
  "find_best_match fz similarity_threshold word_q xml_questions =
     (case fold (best_step fz (word_text word_q)) xml_questions (None, 0) of
        (best_match, best_score) \<Rightarrow>
          if best_score \<ge> similarity_threshold then Some (best_match, best_score) else None)"

datatype error = ValueError

record matched =
  word_question :: word_question
  xml_question :: xml_question
  similarity_score :: rat

record alignment =
  matches :: "matched list"
  unmatched_word :: "word_question list"
  unmatched_xml :: "xml_question list"

record survey_alignment = alignment +
  survey_title :: string

text \<open>
  The loop of \<^verbatim>\<open>match_questions\<close>. A result of \<^verbatim>\<open>find_best_match\<close> is a pair and so
  always true for \<^verbatim>\<open>if result:\<close>; \<^verbatim>\<open>list.remove\<close> raises \<^verbatim>\<open>ValueError\<close> when the
  value is not in the list, as \<^verbatim>\<open>None\<close> never is.
\<close>

fun match_loop :: "fuzz \<Rightarrow> rat \<Rightarrow> word_question list \<Rightarrow> alignment \<Rightarrow> error + alignment" where
  "match_loop fz thr [] st = Inr st"
| "match_loop fz thr (word_q # rest) st =
     (case find_best_match fz thr word_q (unmatched_xml st) of
        Some (best, score) \<Rightarrow>
          (case best of
             None \<Rightarrow> Inl ValueError
           | Some xml_q \<Rightarrow>
               if xml_q \<in> set (unmatched_xml st) then
                 match_loop fz thr rest
                   (st\<lparr>matches := matches st @
                          [\<lparr>word_question = word_q, xml_question = xml_q,
                            similarity_score = score\<rparr>],
                       unmatched_xml := remove1 xml_q (unmatched_xml st)\<rparr>)
               else Inl ValueError)
      | None \<Rightarrow> match_loop fz thr rest (st\<lparr>unmatched_word := unmatched_word st @ [word_q]\<rparr>))"

definition match_questions ::
  "fuzz \<Rightarrow> rat \<Rightarrow> word_question list \<Rightarrow> xml_question list \<Rightarrow> error + alignment" where
  "match_questions fz thr word_questions xml_questions =
     match_loop fz thr word_questions
       \<lparr>matches = [], unmatched_word = [], unmatched_xml = xml_questions\<rparr>"

section \<open>QuestionSplitter\<close>

definition process_survey_pair ::
  "lxml \<Rightarrow> fuzz \<Rightarrow> rat \<Rightarrow> int \<Rightarrow> string \<Rightarrow> string \<Rightarrow> string \<Rightarrow> error + survey_alignment" where
  "process_survey_pair lx fz thr content_limit title w_text xml_content =
     (let word_questions = word_extract_questions content_limit w_text;
          xml_questions = xml_extract_questions lx xml_content
      in if word_questions = [] then
           Inr \<lparr>matches = [], unmatched_word = [], unmatched_xml = xml_questions,
                survey_title = title\<rparr>
         else if xml_questions = [] then
           Inr \<lparr>matches = [], unmatched_word = word_questions, unmatched_xml = [],
                survey_title = title\<rparr>
         else
           (case match_questions fz thr word_questions xml_questions of
              Inl e \<Rightarrow> Inl e
            | Inr results \<Rightarrow>
                Inr \<lparr>matches = matches results, unmatched_word = unmatched_word results,
                     unmatched_xml = unmatched_xml results, survey_title = title\<rparr>))"

section \<open>Units that differ in their content blocks only\<close>

text \<open>
  \<open>replace_content c\<close> gives a Word unit another \<^verbatim>\<open>full_content\<close>, \<open>replace_section d\<close>
  gives a markup unit another \<^verbatim>\<open>full_section\<close>; the new value may depend on the unit.
  \<open>replace_alignment c d\<close> does so for every unit of a result of the matcher.
\<close>

definition replace_content :: "(word_question \<Rightarrow> string) \<Rightarrow> word_question \<Rightarrow> word_question" where
  "replace_content c q = q\<lparr>full_content := c q\<rparr>"

definition replace_section :: "(xml_question \<Rightarrow> string) \<Rightarrow> xml_question \<Rightarrow> xml_question" where
  "replace_section d q = q\<lparr>full_section := d q\<rparr>"

definition replace_matched ::
  "(word_question \<Rightarrow> string) \<Rightarrow> (xml_question \<Rightarrow> string) \<Rightarrow> matched \<Rightarrow> matched" where
  "replace_matched c d m =
     \<lparr>word_question = replace_content c (word_question m),
      xml_question = replace_section d (xml_question m),
      similarity_score = similarity_score m\<rparr>"

definition replace_alignment ::
  "(word_question \<Rightarrow> string) \<Rightarrow> (xml_question \<Rightarrow> string) \<Rightarrow> alignment \<Rightarrow> alignment" where
  "replace_alignment c d r =
     \<lparr>matches = map (replace_matched c d) (matches r),
      unmatched_word = map (replace_content c) (unmatched_word r),
      unmatched_xml = map (replace_section d) (unmatched_xml r)\<rparr>"

section \<open>A sample instance of the library parameters\<close>

text \<open>
  The theorems below hold for every parser, serialiser and triple of ratios. To run the
  model on concrete inputs, the following stand-ins are used: a serialiser without pretty
  printing, a parser that knows one document, and ratios that tell equal strings
  (\<open>100\<close>) from different ones (\<open>0\<close>).
\<close>

fun serialize :: "xml \<Rightarrow> string" where
  "serialize (Element t a x cs y) =
     ''<'' @ t @ concat (map (\<lambda>(k, v). '' '' @ k @ ''='' @ [CHR 0x22] @ v @ [CHR 0x22]) a) @ ''>''
     @ (case x of None \<Rightarrow> [] | Some s \<Rightarrow> s)
     @ concat (map serialize cs)
     @ ''</'' @ t @ ''>''
     @ (case y of None \<Rightarrow> [] | Some s \<Rightarrow> s)"

definition title_el :: "string \<Rightarrow> string \<Rightarrow> xml" where
  "title_el i s = Element ''title'' [(''id'', i)] (Some s) [] None"

definition sample_tree :: xml where
  "sample_tree =
     Element ''survey'' [] None
       [Element ''question'' [(''label'', ''q1'')] None
          [title_el ''q1'' ''What is your age?'',
           Element ''row'' [] (Some ''18-24'') [] None] None,
        Element ''block'' [] None
          [Element ''note'' [] None [title_el ''q2'' '' Where do you live? ''] None] None,
        title_el ''q1'' ''Again?'',
        title_el ''q3'' ''  ''] None"

definition sample_lxml :: lxml where
  "sample_lxml =
     \<lparr>fromstring = (\<lambda>s. if s = serialize sample_tree then Some sample_tree else None),
      tostring = serialize\<rparr>"

definition exact_fuzz :: fuzz where
  "exact_fuzz =
     \<lparr>ratio = (\<lambda>a b. if a = b then 100 else 0),
      partial_ratio = (\<lambda>a b. if a = b then 100 else 0),
      token_sort_ratio = (\<lambda>a b. if a = b then 100 else 0)\<rparr>"

text \<open>Ratios that do not look at their arguments.\<close>

definition constant_fuzz :: "int \<Rightarrow> int \<Rightarrow> int \<Rightarrow> fuzz" where
  "constant_fuzz r p t =
     \<lparr>ratio = (\<lambda>a b. r), partial_ratio = (\<lambda>a b. p), token_sort_ratio = (\<lambda>a b. t)\<rparr>"

text \<open>
  A Word text of three questions and the units of the sample tree, and a short view of a
  result of the matcher: the pairs as (number, identifier, score), then the numbers and
  the identifiers left over.
\<close>

definition sample_words :: "word_question list" where
  "sample_words =
     word_extract_questions 2000
       ''Survey\<newline>Q1. What is your age?\<newline>18-24\<newline>Q2. Where do you live?\<newline>Q3. Anything else?''"

definition sample_xmls :: "xml_question list" where
  "sample_xmls = xml_extract_questions sample_lxml (serialize sample_tree)"

definition summary :: "alignment \<Rightarrow> (string \<times> string \<times> rat) list \<times> string list \<times> string list" where
  "summary r =
     (map (\<lambda>m. (number (word_question m), xml_id (xml_question m), similarity_score m)) (matches r),
      map number (unmatched_word r),
      map xml_id (unmatched_xml r))"

text \<open>The result of matching the samples at threshold \<open>4/5\<close>.\<close>

definition sample_result :: alignment where
  "sample_result =
     (case match_questions exact_fuzz (4 / 5) sample_words sample_xmls of
        Inr r \<Rightarrow> r
      | Inl e \<Rightarrow> \<lparr>matches = [], unmatched_word = [], unmatched_xml = []\<rparr>)"

section \<open>Synthetic documents\<close>

text \<open>
  A line as a generated document has it: not empty, no white space at either end, no
  line break inside. A synthetic document is a sequence of numbered paragraphs, each
  followed by one line of body text; \<open>expected_units k\<close> lists the units such a
  document stands for, numbered from \<open>k\<close>.
\<close>

definition plain_line :: "string \<Rightarrow> bool" where
  "plain_line l = (l \<noteq> [] \<and> strip l = l \<and> newline \<notin> set l)"

definition synthetic_document :: "(string \<times> string) list \<Rightarrow> string" where
  "synthetic_document pairs = join_nl (concat (map (\<lambda>(h, b). [h, b]) pairs))"

fun expected_units :: "nat \<Rightarrow> (string \<times> string) list \<Rightarrow> word_question list" where
  "expected_units k [] = []"
| "expected_units k ((h, b) # pairs) =
     \<lparr>number = extract_question_number h, word_text = extract_question_text h,
      full_content = h @ [newline] @ b, word_index = k\<rparr> # expected_units (Suc k) pairs"

section \<open>Properties of strings and of the numbering patterns\<close>


lemma strip_subset: "set (strip s) \<subseteq> set s"
  by (auto simp: strip_def dest!: set_dropWhileD)

lemma strip_eq_Nil_iff: "strip s = [] \<longleftrightarrow> (\<forall>c\<in>set s. is_space c)"
proof -
  have "dropWhile is_space (rev (dropWhile is_space s)) = [] \<longleftrightarrow> (\<forall>c\<in>set (dropWhile is_space s). is_space c)"
    by (simp add: dropWhile_eq_Nil_conv)
  also have "\<dots> \<longleftrightarrow> dropWhile is_space s = []"
    by (metis dropWhile_eq_Nil_conv dropWhile_idem hd_dropWhile list.set_sel(1))
  also have "\<dots> \<longleftrightarrow> (\<forall>c\<in>set s. is_space c)"
    by (simp add: dropWhile_eq_Nil_conv)
  finally show ?thesis by (simp add: strip_def)
qed

lemma strip_last: "strip s \<noteq> [] \<Longrightarrow> \<not> is_space (last (strip s))"
  unfolding strip_def
  by (metis hd_dropWhile last_rev rev_is_Nil_conv)

lemma dropWhile_hd_id: "s \<noteq> [] \<Longrightarrow> \<not> P (hd s) \<Longrightarrow> dropWhile P s = s"
  by (cases s) auto

lemma strip_fixed:
  assumes "s \<noteq> []" "\<not> is_space (hd s)" "\<not> is_space (last s)"
  shows "strip s = s"
proof -
  have "dropWhile is_space s = s" using assms by (simp add: dropWhile_hd_id)
  moreover have "dropWhile is_space (rev s) = rev s"
    using assms by (simp add: dropWhile_hd_id hd_rev)
  ultimately show ?thesis by (simp add: strip_def)
qed

lemma strip_hd: 
  assumes "strip s \<noteq> []" shows "\<not> is_space (hd (strip s))"
proof -
  define ys where "ys = dropWhile is_space s"
  have eq: "strip s = rev (dropWhile is_space (rev ys))" by (simp add: strip_def ys_def)
  have ne: "ys \<noteq> []"
  proof
    assume "ys = []"
    with eq have "strip s = []" by simp
    with assms show False by simp
  qed
  have "rev ys = takeWhile is_space (rev ys) @ dropWhile is_space (rev ys)" by simp
  then have "ys = rev (dropWhile is_space (rev ys)) @ rev (takeWhile is_space (rev ys))"
    by (metis rev_append rev_rev_ident)
  then have "ys = strip s @ rev (takeWhile is_space (rev ys))"
    by (simp add: strip_def ys_def)
  then have "hd ys = hd (strip s)" using assms by (metis hd_append2)
  moreover have "\<not> is_space (hd ys)" using ne unfolding ys_def by (rule hd_dropWhile)
  ultimately show ?thesis by simp
qed

lemma strip_strip: "strip (strip s) = strip s"
proof (cases "strip s = []")
  case True show ?thesis unfolding True by (simp add: strip_def)
next
  case False then show ?thesis by (simp add: strip_fixed strip_hd strip_last)
qed

lemma newline_split_nl: "p \<in> set (split_nl t) \<Longrightarrow> newline \<notin> set p"
  by (induction t arbitrary: p) (auto split: if_splits list.splits)

lemma split_nl_not_Nil: "split_nl t \<noteq> []"
  by (induction t) (auto split: list.splits)

lemma paragraphs_props:
  assumes "p \<in> set (paragraphs t)"
  shows "p \<noteq> []" "strip p = p" "newline \<notin> set p"
proof -
  from assms obtain l where l: "l \<in> set (split_nl t)" "p = strip l" "p \<noteq> []"
    by (auto simp: paragraphs_def)
  show "p \<noteq> []" by fact
  show "strip p = p" using l by (simp add: strip_strip)
  show "newline \<notin> set p" using l newline_split_nl strip_subset by blast
qed

lemma re_match_suffix: "re_match p s = Some r \<Longrightarrow> suffix r s \<and> takeWhile (\<lambda>c. c \<noteq> newline) r \<noteq> []"
proof (induction p s arbitrary: r rule: re_match.induct)
  case (1 s) then show ?case by (auto split: if_splits)
next
  case (5 c p x xs)
  then show ?case by (auto split: if_splits option.splits intro: suffix_ConsI)
next
  case (7 c p x xs)
  then show ?case by (auto split: if_splits option.splits intro: suffix_ConsI)
qed (auto split: if_splits intro: suffix_ConsI)

lemma first_match_Some:
  "first_match ps s = Some (g0, g1) \<Longrightarrow>
     \<exists>r. suffix r s \<and> g1 = takeWhile (\<lambda>c. c \<noteq> newline) r \<and> g1 \<noteq> []
         \<and> g0 = take (length s - length r) s @ g1"
  by (induction ps) (auto split: option.splits simp: Let_def dest: re_match_suffix)

lemma first_match_whole:
  assumes "first_match ps s = Some (g0, g1)" "newline \<notin> set s"
  shows "g0 = s \<and> suffix g1 s \<and> g1 \<noteq> []"
proof -
  from first_match_Some[OF assms(1)] obtain r where r: "suffix r s"
    "g1 = takeWhile (\<lambda>c. c \<noteq> newline) r" "g1 \<noteq> []" "g0 = take (length s - length r) s @ g1"
    by blast
  have "set r \<subseteq> set s" using r(1) by (simp add: set_mono_suffix)
  then have g1: "g1 = r" using r(2) assms(2) by (auto simp: takeWhile_eq_all_conv)
  obtain q where "s = q @ r" using r(1) by (auto simp: suffix_def)
  then show ?thesis using r g1 by simp
qed

lemma captured_text_nonempty:
  assumes "is_question_start p" "newline \<notin> set p"
  shows "extract_question_text p \<noteq> []"
proof -
  let ?s = "strip p"
  from assms(1) have ne: "?s \<noteq> []" and m: "first_match question_patterns ?s \<noteq> None"
    by (auto simp: is_question_start_def Let_def split: if_splits)
  then obtain g0 g1 where g: "first_match question_patterns ?s = Some (g0, g1)" by auto
  have "newline \<notin> set ?s" using assms(2) strip_subset by blast
  from first_match_whole[OF g this] have suf: "suffix g1 ?s" and g1: "g1 \<noteq> []" by auto
  then obtain q where "?s = q @ g1" by (auto simp: suffix_def)
  then have "last g1 = last ?s" using g1 by (metis last_appendR)
  then have "\<not> is_space (last g1)" using strip_last[OF ne] by simp
  then have "strip g1 \<noteq> []" using g1 by (auto simp: strip_eq_Nil_iff)
  then show ?thesis using g by (simp add: extract_question_text_def)
qed


subsection \<open>The segmenter\<close>

text \<open>Reading a document whose lines are plain gives its lines back.\<close>

lemma split_nl_plain: "newline \<notin> set l \<Longrightarrow> split_nl l = [l]"
  by (induction l) auto

lemma split_nl_append:
  "newline \<notin> set l \<Longrightarrow> split_nl (l @ newline # t) = l # split_nl t"
  by (induction l) (auto split: list.splits)

lemma split_nl_join:
  "ls \<noteq> [] \<Longrightarrow> \<forall>l\<in>set ls. newline \<notin> set l \<Longrightarrow> split_nl (join_nl ls) = ls"
  by (induction ls rule: join_nl.induct) (auto simp: split_nl_plain split_nl_append)

lemma paragraphs_join:
  assumes "\<forall>l\<in>set ls. plain_line l"
  shows "paragraphs (join_nl ls) = ls"
proof (cases "ls = []")
  case True
  then show ?thesis by (simp add: paragraphs_def strip_def)
next
  case False
  have "split_nl (join_nl ls) = ls"
    using False assms by (intro split_nl_join) (auto simp: plain_line_def)
  moreover have "map strip ls = ls"
    using assms by (induction ls) (auto simp: plain_line_def)
  moreover have "filter (\<lambda>p. p \<noteq> []) ls = ls"
    using assms by (induction ls) (auto simp: plain_line_def)
  ultimately show ?thesis by (simp add: paragraphs_def)
qed

lemma question_start_nonempty: "is_question_start p \<Longrightarrow> p \<noteq> []"
  by (auto simp: is_question_start_def strip_def)

lemma opens_then_appends:
  assumes "is_question_start h" "newline \<notin> set h" "\<not> is_question_start b" "b \<noteq> []"
  shows "segment_loop cap (h # b # ps) st =
     (let st' = \<lparr>questions = save_question st,
                 current_question = Some (extract_question_text h),
                 current_content = [h, b],
                 current_number = extract_question_number h\<rparr>
      in if int (length h + length b) > cap then st' else segment_loop cap ps st')"
  using assms captured_text_nonempty[OF assms(1,2)]
  by (simp add: truthy_def Let_def)

lemma save_opened:
  "t \<noteq> [] \<Longrightarrow>
   save_question \<lparr>questions = qs, current_question = Some t, current_content = [h, b],
                  current_number = n\<rparr> =
   qs @ [\<lparr>number = n, word_text = t, full_content = h @ [newline] @ b,
           word_index = length qs\<rparr>]"
  by (simp add: save_question_def)

lemma segment_stops:
  assumes "plain_line h" "plain_line b" "is_question_start h" "\<not> is_question_start b"
    and "int (length h + length b) > cap" and "\<forall>l\<in>set rest. plain_line l"
  shows "word_extract_questions cap (join_nl (h # b # rest)) =
     [\<lparr>number = extract_question_number h, word_text = extract_question_text h,
       full_content = h @ [newline] @ b, word_index = 0\<rparr>]"
proof -
  have p: "paragraphs (join_nl (h # b # rest)) = h # b # rest"
    using assms by (intro paragraphs_join) simp
  have nl: "newline \<notin> set h" and bne: "b \<noteq> []" using assms by (auto simp: plain_line_def)
  have t: "extract_question_text h \<noteq> []" using assms(3) nl by (rule captured_text_nonempty)
  show ?thesis
    unfolding word_extract_questions_def p
    by (simp only: opens_then_appends[OF assms(3) nl assms(4) bne] Let_def assms(5) if_True
          save_opened[OF t])
       (simp add: initial_state_def save_question_def)
qed

lemma pairs_loop:
  assumes "\<forall>(h, b)\<in>set pairs. plain_line h \<and> plain_line b \<and> is_question_start h
             \<and> \<not> is_question_start b \<and> int (length h + length b) \<le> cap"
  shows "save_question (segment_loop cap (concat (map (\<lambda>(h, b). [h, b]) pairs)) st) =
         save_question st @ expected_units (length (save_question st)) pairs"
  using assms
proof (induction pairs arbitrary: st)
  case Nil
  then show ?case by simp
next
  case (Cons hb pairs)
  obtain h b where hb: "hb = (h, b)" by (cases hb)
  from Cons.prems hb have g: "plain_line h" "plain_line b" "is_question_start h"
    "\<not> is_question_start b" "int (length h + length b) \<le> cap" by auto
  have nl: "newline \<notin> set h" and bne: "b \<noteq> []" using g by (auto simp: plain_line_def)
  have t: "extract_question_text h \<noteq> []" using g(3) nl by (rule captured_text_nonempty)
  let ?st = "\<lparr>questions = save_question st,
                 current_question = Some (extract_question_text h),
                 current_content = [h, b],
                 current_number = extract_question_number h\<rparr>"
  have step: "segment_loop cap (concat (map (\<lambda>(h, b). [h, b]) (hb # pairs))) st =
        segment_loop cap (concat (map (\<lambda>(h, b). [h, b]) pairs)) ?st"
    using g(5) by (simp add: hb opens_then_appends[OF g(3) nl g(4) bne] Let_def del: segment_loop.simps)
  have "save_question (segment_loop cap (concat (map (\<lambda>(h, b). [h, b]) pairs)) ?st) =
        save_question ?st @ expected_units (length (save_question ?st)) pairs"
    using Cons.prems by (intro Cons.IH) simp
  then show ?case
    unfolding step by (simp add: save_opened[OF t] hb)
qed

lemma synthetic_units:
  assumes "\<forall>(h, b)\<in>set pairs. plain_line h \<and> plain_line b \<and> is_question_start h
             \<and> \<not> is_question_start b \<and> int (length h + length b) \<le> cap"
  shows "word_extract_questions cap (synthetic_document pairs) = expected_units 0 pairs"
proof -
  have "\<forall>l\<in>set (concat (map (\<lambda>(h, b). [h, b]) pairs)). plain_line l"
    using assms by auto
  then have "paragraphs (synthetic_document pairs) = concat (map (\<lambda>(h, b). [h, b]) pairs)"
    unfolding synthetic_document_def by (rule paragraphs_join)
  then show ?thesis
    using pairs_loop[OF assms, of initial_state]
    by (simp add: word_extract_questions_def) (simp add: initial_state_def save_question_def)
qed


lemma strip_Cons:
  assumes "\<not> is_space c"
  shows "strip (c # xs) = c # rev (dropWhile is_space (rev xs))"
proof -
  have "dropWhile is_space (rev xs @ [c]) = dropWhile is_space (rev xs) @ [c]"
    using assms by (simp add: dropWhile_append)
  then show ?thesis using assms by (simp add: strip_def)
qed

lemma dash_not_question: "\<not> is_question_start (CHR ''-'' # xs)"
proof -
  have d: "\<not> is_space (CHR ''-'')" by (simp add: is_space_def)
  have c: "\<not> cmatch Space (CHR ''-'')" "\<not> cmatch Digit (CHR ''-'')"
    "\<not> cmatch Letter (CHR ''-'')" "\<not> cmatch (OneOf ''qsQS'') (CHR ''-'')"
    "\<not> cmatch (OneOf ''['') (CHR ''-'')" "\<not> cmatch (OneOf ''('') (CHR ''-'')"
    "\<not> cmatch (OneOf ''Q'') (CHR ''-'')"
    by code_simp+
  have "first_match question_patterns (CHR ''-'' # ys) = None" for ys
    by (simp add: question_patterns_def lit_def c del: cmatch.simps)
  then show ?thesis by (simp add: is_question_start_def strip_Cons[OF d])
qed

lemma dashes_not_question: "\<not> is_question_start (replicate (Suc n) (CHR ''-''))"
  by (simp add: dash_not_question)

lemma dashes_plain: "plain_line (replicate (Suc n) (CHR ''-''))"
proof -
  let ?l = "replicate (Suc n) (CHR ''-'')"
  have d: "\<not> is_space (CHR ''-'')" by (simp add: is_space_def)
  have "hd ?l = CHR ''-''" by simp
  moreover have "last ?l = CHR ''-''" by simp
  moreover have "?l \<noteq> []" by simp
  ultimately have "strip ?l = ?l" using d by (intro strip_fixed) (simp_all only:, simp_all)
  moreover have "newline \<notin> set ?l" by (simp add: newline_def)
  ultimately show ?thesis by (simp add: plain_line_def)
qed

text \<open>
  C1. The claim: when the content of a question exceeds \<open>content_limit_chars\<close>, that
  question is still emitted and every later numbered paragraph still yields its own unit.
  In the code the \<^verbatim>\<open>break\<close> leaves the loop over the paragraphs. With the default limit
  of 2000 characters, a first question followed by a rule of 2000 dashes and then by a
  second question gives the first question alone, although the paragraph of the second
  one is a question start.
\<close>

theorem content_limit_ends_segmentation:
  "word_extract_questions 2000
     (join_nl [''Q1. Comments?'', replicate 2000 (CHR ''-''), ''Q2. What is your age?'', ''18-24'']) =
     [\<lparr>number = ''Q1.'', word_text = ''Comments?'',
       full_content = ''Q1. Comments?'' @ [newline] @ replicate 2000 (CHR ''-''),
       word_index = 0\<rparr>]
   \<and> is_question_start ''Q2. What is your age?''"
proof -
  have b: "plain_line (replicate 2000 (CHR ''-''))" "\<not> is_question_start (replicate 2000 (CHR ''-''))"
    using dashes_plain[of 1999] dashes_not_question[of 1999] by simp_all
  have h: "plain_line ''Q1. Comments?''" "is_question_start ''Q1. Comments?''"
    "extract_question_number ''Q1. Comments?'' = ''Q1.''"
    "extract_question_text ''Q1. Comments?'' = ''Comments?''"
    unfolding plain_line_def by code_simp+
  have r: "\<forall>l\<in>set [''Q2. What is your age?'', ''18-24'']. plain_line l"
    unfolding plain_line_def by code_simp
  have q: "is_question_start ''Q2. What is your age?''" by code_simp
  have "int (length ''Q1. Comments?'' + length (replicate 2000 (CHR ''-''))) > 2000" by simp
  from segment_stops[OF h(1) b(1) h(2) b(2) this r] q show ?thesis by (simp only: h)
qed

text \<open>
  C5. The claim: a synthetic document of \<open>N\<close> numbered paragraphs, each followed by one
  line of body text, gives exactly \<open>N\<close> units, in order, with indices \<open>0..N-1\<close>. Lemma
  \<open>synthetic_units\<close> above shows the number, the order and the indices for documents in
  which no question with its body line is longer than the content limit, the identifier
  being what \<open>extract_question_number\<close> computes. Where one is, the same \<^verbatim>\<open>break\<close> ends the
  segmentation: the document of two numbered paragraphs below, whose first body line is a
  rule of 1990 dashes, gives one unit.
\<close>

theorem synthetic_document_cut_short:
  "length (word_extract_questions 2000
     (synthetic_document [(''1. Describe your role'', replicate 1990 (CHR ''-'')),
                          (''2. Years of service'', ''0-5'')])) = 1
   \<and> is_question_start ''1. Describe your role'' \<and> is_question_start ''2. Years of service''
   \<and> \<not> is_question_start (replicate 1990 (CHR ''-'')) \<and> \<not> is_question_start ''0-5''"
proof -
  have b: "plain_line (replicate 1990 (CHR ''-''))" "\<not> is_question_start (replicate 1990 (CHR ''-''))"
    using dashes_plain[of 1989] dashes_not_question[of 1989] by simp_all
  have h: "plain_line ''1. Describe your role''" "is_question_start ''1. Describe your role''"
    unfolding plain_line_def by code_simp+
  have r: "\<forall>l\<in>set [''2. Years of service'', ''0-5'']. plain_line l"
    unfolding plain_line_def by code_simp
  have q: "is_question_start ''2. Years of service''" "\<not> is_question_start ''0-5''" by code_simp+
  have "int (length ''1. Describe your role'' + length (replicate 1990 (CHR ''-''))) > 2000" by simp
  from segment_stops[OF h(1) b(1) h(2) b(2) this r]
  have "length (word_extract_questions 2000
          (join_nl [''1. Describe your role'', replicate 1990 (CHR ''-''), ''2. Years of service'', ''0-5''])) = 1"
    by simp
  then show ?thesis using q h(2) b(2) by (simp add: synthetic_document_def)
qed

subsection \<open>Units are never empty\<close>

lemma join_nl_nonempty: "ls \<noteq> [] \<Longrightarrow> hd ls \<noteq> [] \<Longrightarrow> join_nl ls \<noteq> []"
  by (induction ls rule: join_nl.induct) auto

lemma save_question_nonempty:
  assumes "\<forall>q\<in>set (questions st). word_text q \<noteq> [] \<and> full_content q \<noteq> []"
    and "truthy (current_question st) \<longrightarrow> current_content st \<noteq> [] \<and> hd (current_content st) \<noteq> []"
  shows "\<forall>q\<in>set (save_question st). word_text q \<noteq> [] \<and> full_content q \<noteq> []"
  using assms
  by (auto simp: save_question_def truthy_def join_nl_nonempty split: option.splits)

lemma segment_loop_nonempty:
  assumes "\<forall>q\<in>set (questions st). word_text q \<noteq> [] \<and> full_content q \<noteq> []"
    and "truthy (current_question st) \<longrightarrow> current_content st \<noteq> [] \<and> hd (current_content st) \<noteq> []"
  shows "(\<forall>q\<in>set (questions (segment_loop cap ps st)). word_text q \<noteq> [] \<and> full_content q \<noteq> [])
       \<and> (truthy (current_question (segment_loop cap ps st)) \<longrightarrow>
            current_content (segment_loop cap ps st) \<noteq> []
            \<and> hd (current_content (segment_loop cap ps st)) \<noteq> [])"
  using assms
proof (induction ps arbitrary: st)
  case Nil
  then show ?case by simp
next
  case (Cons para ps)
  show ?case
  proof (cases "is_question_start para")
    case True
    let ?st = "\<lparr>questions = save_question st,
           current_question = Some (extract_question_text para),
           current_content = [para],
           current_number = extract_question_number para\<rparr>"
    have "\<forall>q\<in>set (questions ?st). word_text q \<noteq> [] \<and> full_content q \<noteq> []"
      using save_question_nonempty[OF Cons.prems] by simp
    moreover have "current_content ?st \<noteq> [] \<and> hd (current_content ?st) \<noteq> []"
      using question_start_nonempty[OF True] by simp
    ultimately show ?thesis
      using Cons.IH[of ?st] True by simp
  next
    case False
    show ?thesis
    proof (cases "truthy (current_question st) \<and> para \<noteq> []")
      case True
      let ?st = "st\<lparr>current_content := current_content st @ [para]\<rparr>"
      have a: "\<forall>q\<in>set (questions ?st). word_text q \<noteq> [] \<and> full_content q \<noteq> []"
        using Cons.prems(1) by simp
      have b: "truthy (current_question ?st) \<longrightarrow>
           current_content ?st \<noteq> [] \<and> hd (current_content ?st) \<noteq> []"
        using Cons.prems(2) True by simp
      show ?thesis
      proof (cases "int (sum_list (map length (current_content ?st))) > cap")
        case True
        then have "segment_loop cap (para # ps) st = ?st"
          using \<open>\<not> is_question_start para\<close> \<open>truthy (current_question st) \<and> para \<noteq> []\<close>
          by (simp add: Let_def)
        then show ?thesis using a b by (simp only:) 
      next
        case False
        then have "segment_loop cap (para # ps) st = segment_loop cap ps ?st"
          using \<open>\<not> is_question_start para\<close> \<open>truthy (current_question st) \<and> para \<noteq> []\<close>
          by (simp add: Let_def)
        then show ?thesis using Cons.IH[OF a b] by (simp only:)
      qed
    next
      case False
      then have "segment_loop cap (para # ps) st = segment_loop cap ps st"
        using \<open>\<not> is_question_start para\<close> by auto
      then show ?thesis using Cons.IH[OF Cons.prems] by (simp only:)
    qed
  qed
qed

lemma word_units_nonempty:
  "\<forall>q\<in>set (word_extract_questions cap doc). word_text q \<noteq> [] \<and> full_content q \<noteq> []"
proof -
  have "\<forall>q\<in>set (questions initial_state). word_text q \<noteq> [] \<and> full_content q \<noteq> []"
    and "truthy (current_question initial_state) \<longrightarrow>
         current_content initial_state \<noteq> [] \<and> hd (current_content initial_state) \<noteq> []"
    by (simp_all add: initial_state_def truthy_def)
  from segment_loop_nonempty[OF this, of cap "paragraphs doc"]
  show ?thesis unfolding word_extract_questions_def
    by (intro save_question_nonempty) blast+
qed

lemma title_step_nonempty:
  assumes "\<forall>q\<in>set (fst st). xml_text q \<noteq> [] \<and> (nonempty_out \<longrightarrow> full_section q \<noteq> [])"
    and "nonempty_out \<longrightarrow> (\<forall>e. tostring lx e \<noteq> [])"
  shows "\<forall>q\<in>set (fst (title_step lx found st)). xml_text q \<noteq> [] \<and> (nonempty_out \<longrightarrow> full_section q \<noteq> [])"
  using assms
  by (cases found; cases st)
     (auto simp: title_step_def Let_def section_of_def split: option.splits list.splits)

lemma fold_title_step_nonempty:
  assumes "\<forall>q\<in>set (fst st). xml_text q \<noteq> [] \<and> (nonempty_out \<longrightarrow> full_section q \<noteq> [])"
    and "nonempty_out \<longrightarrow> (\<forall>e. tostring lx e \<noteq> [])"
  shows "\<forall>q\<in>set (fst (fold (title_step lx) ts st)). xml_text q \<noteq> [] \<and> (nonempty_out \<longrightarrow> full_section q \<noteq> [])"
  using assms(1)
proof (induction ts arbitrary: st)
  case Nil
  then show ?case by simp
next
  case (Cons t ts)
  have "\<forall>q\<in>set (fst (title_step lx t st)).
          xml_text q \<noteq> [] \<and> (nonempty_out \<longrightarrow> full_section q \<noteq> [])"
    by (rule title_step_nonempty[OF Cons.prems assms(2)])
  from Cons.IH[OF this] show ?case by simp
qed

lemma xml_units_nonempty:
  assumes "nonempty_out \<longrightarrow> (\<forall>e. tostring lx e \<noteq> [])"
  shows "\<forall>q\<in>set (xml_extract_questions lx markup). xml_text q \<noteq> [] \<and> (nonempty_out \<longrightarrow> full_section q \<noteq> [])"
proof (cases "fromstring lx markup")
  case None
  then show ?thesis by (simp add: xml_extract_questions_def)
next
  case (Some tree)
  have "\<forall>q\<in>set (fst (([], {}) :: xml_question list \<times> string set)).
          xml_text q \<noteq> [] \<and> (nonempty_out \<longrightarrow> full_section q \<noteq> [])" by simp
  from fold_title_step_nonempty[OF this assms]
  show ?thesis by (simp add: xml_extract_questions_def Some xml_extract_tree_def)
qed

lemma serialize_nonempty: "serialize e \<noteq> []"
  by (cases e) simp

text \<open>
  C9. Every unit emitted by either extractor has a non-empty content block and a
  non-empty question text. The segmenter opens a unit only on a paragraph that matches a
  numbering pattern, and the text captured from such a paragraph is not empty after
  trimming; the markup extractor skips a title whose trimmed text is empty, and the
  serialised section is not empty as long as the serialiser never returns the empty
  string.
\<close>

theorem emitted_units_nonempty:
  "(\<forall>q\<in>set (word_extract_questions cap doc). word_text q \<noteq> [] \<and> full_content q \<noteq> [])
   \<and> (\<forall>p\<in>set (paragraphs doc). is_question_start p \<longrightarrow> extract_question_text p \<noteq> [])
   \<and> (\<forall>q\<in>set (xml_extract_questions lx markup). xml_text q \<noteq> [])
   \<and> ((\<forall>e. tostring lx e \<noteq> []) \<longrightarrow>
        (\<forall>q\<in>set (xml_extract_questions lx markup). full_section q \<noteq> []))"
proof (intro conjI)
  show "\<forall>q\<in>set (word_extract_questions cap doc). word_text q \<noteq> [] \<and> full_content q \<noteq> []"
    by (rule word_units_nonempty)
  show "\<forall>p\<in>set (paragraphs doc). is_question_start p \<longrightarrow> extract_question_text p \<noteq> []"
    using captured_text_nonempty paragraphs_props(3) by blast
  show "\<forall>q\<in>set (xml_extract_questions lx markup). xml_text q \<noteq> []"
    using xml_units_nonempty[of False lx markup] by simp
  show "(\<forall>e. tostring lx e \<noteq> []) \<longrightarrow>
        (\<forall>q\<in>set (xml_extract_questions lx markup). full_section q \<noteq> [])"
    using xml_units_nonempty[of True lx markup] by simp
qed

theorem emitted_units_nonempty_witness:
  "map word_text (word_extract_questions 2000 ''Intro\<newline>Q1. What is your age?\<newline>18-24\<newline>Q2. Where?'')
      = [''What is your age?'', ''Where?'']
   \<and> [] \<notin> set (map word_text (word_extract_questions 2000 ''Intro\<newline>Q1. What is your age?\<newline>18-24\<newline>Q2. Where?''))
   \<and> [] \<notin> set (map full_content (word_extract_questions 2000 ''Intro\<newline>Q1. What is your age?\<newline>18-24\<newline>Q2. Where?''))
   \<and> map xml_id (xml_extract_questions sample_lxml (serialize sample_tree)) = [''q1'', ''q2'']
   \<and> [] \<notin> set (map xml_text (xml_extract_questions sample_lxml (serialize sample_tree)))
   \<and> [] \<notin> set (map full_section (xml_extract_questions sample_lxml (serialize sample_tree)))"
proof -
  have out: "\<forall>e. tostring sample_lxml e \<noteq> []"
    by (simp add: sample_lxml_def serialize_nonempty)
  have w: "map word_text (word_extract_questions 2000 ''Intro\<newline>Q1. What is your age?\<newline>18-24\<newline>Q2. Where?'')
      = [''What is your age?'', ''Where?'']" by code_simp
  have x: "map xml_id (xml_extract_questions sample_lxml (serialize sample_tree)) = [''q1'', ''q2'']"
    by code_simp
  note t = emitted_units_nonempty[of 2000 "''Intro\<newline>Q1. What is your age?\<newline>18-24\<newline>Q2. Where?''"
        sample_lxml "serialize sample_tree"]
  have "[] \<notin> set (map word_text (word_extract_questions 2000 ''Intro\<newline>Q1. What is your age?\<newline>18-24\<newline>Q2. Where?''))"
    using t by force
  moreover have "[] \<notin> set (map full_content (word_extract_questions 2000 ''Intro\<newline>Q1. What is your age?\<newline>18-24\<newline>Q2. Where?''))"
    using t by force
  moreover have "[] \<notin> set (map xml_text (xml_extract_questions sample_lxml (serialize sample_tree)))"
    using t by force
  moreover have "[] \<notin> set (map full_section (xml_extract_questions sample_lxml (serialize sample_tree)))"
    using t out by force
  ultimately show ?thesis using w x by blast
qed

subsection \<open>The markup extractor\<close>

lemma climb_find: "climb ancestors = find (\<lambda>a. tag a \<in> set section_tags) ancestors"
  by (induction ancestors) auto

lemma section_of_source: "section_of lx ancestors title = tostring lx (content_source ancestors title)"
  by (simp add: section_of_def content_source_def climb_find split: option.splits list.splits)

lemma title_elements_chain:
  "(a, t) \<in> set (title_elements anc e) \<Longrightarrow>
     \<exists>pre. a = pre @ anc \<and> (if pre = [] then t = e else last pre = e \<and> is_chain t pre)"
proof (induction anc e arbitrary: a t rule: title_elements.induct)
  case (1 ancestors tg atts x cs y)
  let ?e = "Element tg atts x cs y"
  from "1.prems" consider "(a, t) = (ancestors, ?e)"
    | c where "c \<in> set cs" "(a, t) \<in> set (title_elements (?e # ancestors) c)"
    by (auto split: if_splits)
  then show ?case
  proof cases
    case 1
    then show ?thesis by auto
  next
    case 2
    from "1.IH"[OF 2] obtain pre where pre: "a = pre @ ?e # ancestors"
      "if pre = [] then t = c else last pre = c \<and> is_chain t pre" by blast
    have ch: "is_chain t (pre @ [?e])"
    proof (cases "pre = []")
      case True
      then show ?thesis using pre 2 by simp
    next
      case False
      have "is_chain u (ps @ [?e])" if "ps \<noteq> []" "last ps = c" "is_chain u ps" for u ps
        using that 2(1) by (induction ps arbitrary: u) (auto split: if_splits)
      then show ?thesis using False pre by auto
    qed
    show ?thesis
      by (rule exI[of _ "pre @ [?e]"]) (use pre ch in auto)
  qed
qed

lemma title_elements_root:
  assumes "(a, t) \<in> set (title_elements [] tree)"
  shows "is_chain t a \<and> (if a = [] then t = tree else last a = tree)"
  using title_elements_chain[OF assms] by auto

lemma title_step_eq:
  "title_step lx (a, t) (qs, seen) =
     (if get_id t \<in> seen \<or> strip (text_or_empty t) = [] then (qs, seen)
      else (qs @ [\<lparr>xml_id = get_id t, xml_text = strip (text_or_empty t),
                   full_section = tostring lx (content_source a t),
                   xml_index = length qs\<rparr>],
            insert (get_id t) seen))"
  by (simp add: title_step_def Let_def section_of_source)

lemma fold_title_step_invariant:
  assumes "seen = xml_id ` set qs"
  shows "snd (fold (title_step lx) ts (qs, seen)) = xml_id ` set (fst (fold (title_step lx) ts (qs, seen)))"
  using assms
proof (induction ts arbitrary: qs seen)
  case Nil
  then show ?case by simp
next
  case (Cons f ts)
  obtain a t where f: "f = (a, t)" by (cases f)
  show ?case
    using Cons.prems by (simp add: f title_step_eq Cons.IH)
qed

lemma fold_title_step_distinct:
  assumes "seen = xml_id ` set qs" and "distinct (map xml_id qs)"
  shows "distinct (map xml_id (fst (fold (title_step lx) ts (qs, seen))))"
  using assms
proof (induction ts arbitrary: qs seen)
  case Nil
  then show ?case by simp
next
  case (Cons f ts)
  obtain a t where f: "f = (a, t)" by (cases f)
  show ?case
  proof (cases "get_id t \<in> seen \<or> strip (text_or_empty t) = []")
    case True
    then show ?thesis using Cons by (simp add: f title_step_eq)
  next
    case False
    let ?u = "\<lparr>xml_id = get_id t, xml_text = strip (text_or_empty t),
              full_section = tostring lx (content_source a t), xml_index = length qs\<rparr>"
    have "insert (get_id t) seen = xml_id ` set (qs @ [?u])" using Cons.prems(1) by simp
    moreover have "distinct (map xml_id (qs @ [?u]))" using Cons.prems False by auto
    ultimately have "distinct (map xml_id (fst (fold (title_step lx) ts
                        (qs @ [?u], insert (get_id t) seen))))"
      by (rule Cons.IH)
    then show ?thesis using False by (simp add: f title_step_eq)
  qed
qed

lemma xml_units_distinct:
  "distinct (map xml_id (xml_extract_questions lx markup))"
  "distinct (xml_extract_questions lx markup)"
proof -
  show d: "distinct (map xml_id (xml_extract_questions lx markup))"
    using fold_title_step_distinct[of "{}" "[]" lx]
    by (simp add: xml_extract_questions_def xml_extract_tree_def split: option.splits)
  then show "distinct (xml_extract_questions lx markup)" by (simp add: distinct_map)
qed

lemma fold_title_step_units:
  assumes "\<forall>q\<in>set qs. P q"
    and "\<And>a t k. (a, t) \<in> set ts \<Longrightarrow> strip (text_or_empty t) \<noteq> [] \<Longrightarrow>
           P \<lparr>xml_id = get_id t, xml_text = strip (text_or_empty t),
              full_section = tostring lx (content_source a t), xml_index = k\<rparr>"
  shows "\<forall>q\<in>set (fst (fold (title_step lx) ts (qs, seen))). P q"
  using assms
proof (induction ts arbitrary: qs seen)
  case Nil
  then show ?case by simp
next
  case (Cons f ts)
  obtain a t where f: "f = (a, t)" by (cases f)
  show ?case
  proof (cases "get_id t \<in> seen \<or> strip (text_or_empty t) = []")
    case True
    then show ?thesis using Cons by (simp add: f title_step_eq)
  next
    case False
    let ?u = "\<lparr>xml_id = get_id t, xml_text = strip (text_or_empty t),
              full_section = tostring lx (content_source a t), xml_index = length qs\<rparr>"
    have "P ?u" using Cons.prems(2)[of a t "length qs"] False by (simp add: f)
    then have "\<forall>q\<in>set (qs @ [?u]). P q" using Cons.prems(1) by simp
    from Cons.IH[OF this, of "insert (get_id t) seen"] Cons.prems(2)
    show ?thesis using False by (simp add: f title_step_eq)
  qed
qed

lemma extracted_units_source:
  "\<forall>q\<in>set (xml_extract_tree lx tree).
     \<exists>(a, t)\<in>set (title_elements [] tree).
        xml_id q = get_id t \<and> xml_text q = strip (text_or_empty t) \<and>
        full_section q = tostring lx (content_source a t)"
  unfolding xml_extract_tree_def
  by (rule fold_title_step_units) auto

text \<open>
  C8. For an accepted title element the content block is the serialised subtree of the
  element chosen by the fallback chain: the nearest ancestor with a section tag
  (\<^verbatim>\<open>suspend\<close>, \<^verbatim>\<open>page\<close>, \<^verbatim>\<open>question\<close>, \<^verbatim>\<open>exec\<close>), else the immediate parent, else the
  title element itself. The ancestors that the extractor walks are the chain of parents
  from the title element up to the root.
\<close>

theorem section_fallback_chain:
  "section_of lx ancestors title = tostring lx (content_source ancestors title)
   \<and> title_step lx (ancestors, title) (qs, seen) =
       (if get_id title \<in> seen \<or> strip (text_or_empty title) = [] then (qs, seen)
        else (qs @ [\<lparr>xml_id = get_id title, xml_text = strip (text_or_empty title),
                     full_section = tostring lx (content_source ancestors title),
                     xml_index = length qs\<rparr>],
              insert (get_id title) seen))
   \<and> (\<forall>q\<in>set (xml_extract_tree lx tree).
        \<exists>(a, t)\<in>set (title_elements [] tree).
          is_chain t a \<and> (if a = [] then t = tree else last a = tree) \<and>
          xml_id q = get_id t \<and> full_section q = tostring lx (content_source a t))"
proof (intro conjI)
  show "section_of lx ancestors title = tostring lx (content_source ancestors title)"
    by (rule section_of_source)
  show "title_step lx (ancestors, title) (qs, seen) =
       (if get_id title \<in> seen \<or> strip (text_or_empty title) = [] then (qs, seen)
        else (qs @ [\<lparr>xml_id = get_id title, xml_text = strip (text_or_empty title),
                     full_section = tostring lx (content_source ancestors title),
                     xml_index = length qs\<rparr>],
              insert (get_id title) seen))"
    by (rule title_step_eq)
  show "\<forall>q\<in>set (xml_extract_tree lx tree).
        \<exists>(a, t)\<in>set (title_elements [] tree).
          is_chain t a \<and> (if a = [] then t = tree else last a = tree) \<and>
          xml_id q = get_id t \<and> full_section q = tostring lx (content_source a t)"
  proof
    fix q assume "q \<in> set (xml_extract_tree lx tree)"
    with extracted_units_source obtain a t where at: "(a, t) \<in> set (title_elements [] tree)"
      "xml_id q = get_id t" "full_section q = tostring lx (content_source a t)"
      by fast
    from title_elements_root[OF at(1)] at
    show "\<exists>(a, t)\<in>set (title_elements [] tree).
          is_chain t a \<and> (if a = [] then t = tree else last a = tree) \<and>
          xml_id q = get_id t \<and> full_section q = tostring lx (content_source a t)"
      by (intro bexI[of _ "(a, t)"]) auto
  qed
qed

theorem section_fallback_chain_witness:
  "section_of sample_lxml [] (title_el ''q1'' ''Hi'') = serialize (title_el ''q1'' ''Hi'')
   \<and> section_of sample_lxml
        [Element ''note'' [] None [] None, Element ''block'' [] None [] None]
        (title_el ''q1'' ''Hi'') = ''<note></note>''
   \<and> section_of sample_lxml
        [Element ''note'' [] None [] None, Element ''page'' [] None [] None,
         Element ''exec'' [] None [] None]
        (title_el ''q1'' ''Hi'') = ''<page></page>''
   \<and> map xml_id (xml_extract_tree sample_lxml sample_tree) = [''q1'', ''q2'']"
proof -
  have "content_source [] (title_el ''q1'' ''Hi'') = title_el ''q1'' ''Hi''"
    by code_simp
  then have a: "section_of sample_lxml [] (title_el ''q1'' ''Hi'') = serialize (title_el ''q1'' ''Hi'')"
    using section_fallback_chain[of sample_lxml "[]" "title_el ''q1'' ''Hi''"]
    by (simp add: sample_lxml_def)
  have "serialize (content_source [Element ''note'' [] None [] None, Element ''block'' [] None [] None]
          (title_el ''q1'' ''Hi'')) = ''<note></note>''"
    by code_simp
  then have b: "section_of sample_lxml
        [Element ''note'' [] None [] None, Element ''block'' [] None [] None]
        (title_el ''q1'' ''Hi'') = ''<note></note>''"
    using section_fallback_chain[of sample_lxml
        "[Element ''note'' [] None [] None, Element ''block'' [] None [] None]" "title_el ''q1'' ''Hi''"]
    by (simp add: sample_lxml_def)
  have "serialize (content_source [Element ''note'' [] None [] None, Element ''page'' [] None [] None,
          Element ''exec'' [] None [] None] (title_el ''q1'' ''Hi'')) = ''<page></page>''"
    by code_simp
  then have c: "section_of sample_lxml
        [Element ''note'' [] None [] None, Element ''page'' [] None [] None,
         Element ''exec'' [] None [] None]
        (title_el ''q1'' ''Hi'') = ''<page></page>''"
    using section_fallback_chain[of sample_lxml
        "[Element ''note'' [] None [] None, Element ''page'' [] None [] None,
          Element ''exec'' [] None [] None]" "title_el ''q1'' ''Hi''"]
    by (simp add: sample_lxml_def)
  have d: "map xml_id (xml_extract_tree sample_lxml sample_tree) = [''q1'', ''q2'']"
    by code_simp
  from a b c d show ?thesis by blast
qed

lemma fold_title_step_filter:
  assumes "seen = xml_id ` set qs"
  shows "map (\<lambda>q. (xml_text q, full_section q))
           (filter (\<lambda>q. xml_id q = i) (fst (fold (title_step lx) ts (qs, seen)))) =
         map (\<lambda>q. (xml_text q, full_section q)) (filter (\<lambda>q. xml_id q = i) qs) @
         (if i \<in> seen then []
          else (case find (\<lambda>(a, t). get_id t = i \<and> strip (text_or_empty t) \<noteq> []) ts of
                  None \<Rightarrow> []
                | Some (a, t) \<Rightarrow> [(strip (text_or_empty t), section_of lx a t)]))"
  using assms
proof (induction ts arbitrary: qs seen)
  case Nil
  then show ?case by simp
next
  case (Cons f ts)
  obtain a t where f: "f = (a, t)" by (cases f)
  show ?case
  proof (cases "get_id t \<in> seen \<or> strip (text_or_empty t) = []")
    case True
    then have "fold (title_step lx) (f # ts) (qs, seen) = fold (title_step lx) ts (qs, seen)"
      by (simp add: f title_step_eq)
    then show ?thesis using Cons.IH[OF Cons.prems] True by (auto simp: f)
  next
    case False
    let ?u = "\<lparr>xml_id = get_id t, xml_text = strip (text_or_empty t),
              full_section = tostring lx (content_source a t), xml_index = length qs\<rparr>"
    have st: "fold (title_step lx) (f # ts) (qs, seen) =
          fold (title_step lx) ts (qs @ [?u], insert (get_id t) seen)"
      using False by (simp add: f title_step_eq)
    have "insert (get_id t) seen = xml_id ` set (qs @ [?u])" using Cons.prems by simp
    from Cons.IH[OF this] show ?thesis
      unfolding st using False by (auto simp: f section_of_source)
  qed
qed

text \<open>
  C6, as stated: of several title elements with the same identifier, the unit of the
  first one in document order is emitted, exactly once. The code remembers an identifier
  only when it accepts the element, so a first element whose text is empty is passed
  over and a later element with the same identifier is taken; when all of them are empty
  no unit is emitted at all.
\<close>

theorem first_title_may_be_skipped:
  "map get_id (map snd (title_elements []
       (Element ''survey'' [] None [title_el ''q1'' '' '', title_el ''q1'' ''Age?''] None)))
     = [''q1'', ''q1'']
   \<and> map xml_text (xml_extract_tree sample_lxml
       (Element ''survey'' [] None [title_el ''q1'' '' '', title_el ''q1'' ''Age?''] None))
     = [''Age?'']
   \<and> xml_extract_tree sample_lxml
       (Element ''survey'' [] None [title_el ''q1'' '' '', title_el ''q1'' ''''] None) = []"
  by code_simp

text \<open>
  C6, amended: for every identifier the extractor emits at most one unit, and it is the
  unit of the first title element in document order that carries the identifier and has
  non-empty trimmed text; when there is no such element, no unit with that identifier is
  emitted. Later elements with an identifier already emitted and elements with empty
  trimmed text are skipped.
\<close>

theorem first_nonempty_title_wins:
  "map (\<lambda>q. (xml_text q, full_section q))
     (filter (\<lambda>q. xml_id q = i) (xml_extract_tree lx tree)) =
   (case find (\<lambda>(a, t). get_id t = i \<and> strip (text_or_empty t) \<noteq> []) (title_elements [] tree) of
      None \<Rightarrow> []
    | Some (a, t) \<Rightarrow> [(strip (text_or_empty t), section_of lx a t)])"
  unfolding xml_extract_tree_def
  using fold_title_step_filter[of "{}" "[]" i lx "title_elements [] tree"] by simp

theorem first_nonempty_title_wins_witness:
  "map xml_text (filter (\<lambda>q. xml_id q = ''q1'') (xml_extract_tree sample_lxml sample_tree))
     = [''What is your age?'']
   \<and> map (\<lambda>(a, t). get_id t) (title_elements [] sample_tree) = [''q1'', ''q2'', ''q1'', ''q3'']
   \<and> filter (\<lambda>q. xml_id q = ''q3'') (xml_extract_tree sample_lxml sample_tree) = []"
proof -
  have f1: "find (\<lambda>(a, t). get_id t = ''q1'' \<and> strip (text_or_empty t) \<noteq> []) (title_elements [] sample_tree)
      = Some ([Element ''question'' [(''label'', ''q1'')] None
          [title_el ''q1'' ''What is your age?'',
           Element ''row'' [] (Some ''18-24'') [] None] None, sample_tree], title_el ''q1'' ''What is your age?'')"
    by code_simp
  have f3: "find (\<lambda>(a, t). get_id t = ''q3'' \<and> strip (text_or_empty t) \<noteq> []) (title_elements [] sample_tree)
      = None"
    by code_simp
  have s: "strip (text_or_empty (title_el ''q1'' ''What is your age?'')) = ''What is your age?''"
    by code_simp
  have "map fst (map (\<lambda>q. (xml_text q, full_section q))
     (filter (\<lambda>q. xml_id q = ''q1'') (xml_extract_tree sample_lxml sample_tree))) = [''What is your age?'']"
    unfolding first_nonempty_title_wins[of "''q1''" sample_lxml sample_tree] f1 by (simp add: s)
  then have a: "map xml_text (filter (\<lambda>q. xml_id q = ''q1'') (xml_extract_tree sample_lxml sample_tree))
     = [''What is your age?'']" by (simp add: comp_def)
  have "map (\<lambda>q. (xml_text q, full_section q))
     (filter (\<lambda>q. xml_id q = ''q3'') (xml_extract_tree sample_lxml sample_tree)) = []"
    unfolding first_nonempty_title_wins[of "''q3''" sample_lxml sample_tree] f3 by simp
  then have b: "filter (\<lambda>q. xml_id q = ''q3'') (xml_extract_tree sample_lxml sample_tree) = []"
    by simp
  have c: "map (\<lambda>(a, t). get_id t) (title_elements [] sample_tree) = [''q1'', ''q2'', ''q1'', ''q3'']"
    by code_simp
  from a b c show ?thesis by blast
qed

subsection \<open>The matcher\<close>

text \<open>The loop of \<open>find_best_match\<close> keeps the first candidate of highest score above
  the starting score.\<close>

lemma best_step_pair:
  "best_step fz wt x (bm, bs) =
     (if calculate_similarity fz wt (xml_text x) > bs
      then (Some x, calculate_similarity fz wt (xml_text x)) else (bm, bs))"
  by (simp add: best_step_def Let_def)

lemma fold_best_step:
  "fold (best_step fz wt) xs (bm, bs) = (bm', bs') \<Longrightarrow>
     ((bm', bs') = (bm, bs) \<and> (\<forall>x\<in>set xs. calculate_similarity fz wt (xml_text x) \<le> bs))
     \<or> (\<exists>ys x zs. xs = ys @ x # zs \<and> bm' = Some x
           \<and> bs' = calculate_similarity fz wt (xml_text x) \<and> bs < bs'
           \<and> (\<forall>y\<in>set ys. calculate_similarity fz wt (xml_text y) < bs')
           \<and> (\<forall>z\<in>set zs. calculate_similarity fz wt (xml_text z) \<le> bs'))"
proof (induction xs arbitrary: bm bs)
  case Nil
  then show ?case by simp
next
  case (Cons x xs)
  let ?s = "calculate_similarity fz wt (xml_text x)"
  show ?case
  proof (cases "?s > bs")
    case True
    then have "fold (best_step fz wt) xs (Some x, ?s) = (bm', bs')"
      using Cons.prems by (simp add: best_step_pair)
    from Cons.IH[OF this] show ?thesis
    proof
      assume "(bm', bs') = (Some x, ?s) \<and> (\<forall>x\<in>set xs. calculate_similarity fz wt (xml_text x) \<le> ?s)"
      then have "x # xs = [] @ x # xs \<and> bm' = Some x \<and> bs' = ?s \<and> bs < bs'
           \<and> (\<forall>y\<in>set []. calculate_similarity fz wt (xml_text y) < bs')
           \<and> (\<forall>z\<in>set xs. calculate_similarity fz wt (xml_text z) \<le> bs')"
        using True by auto
      then show ?thesis by blast
    next
      assume "\<exists>ys x' zs. xs = ys @ x' # zs \<and> bm' = Some x'
           \<and> bs' = calculate_similarity fz wt (xml_text x') \<and> ?s < bs'
           \<and> (\<forall>y\<in>set ys. calculate_similarity fz wt (xml_text y) < bs')
           \<and> (\<forall>z\<in>set zs. calculate_similarity fz wt (xml_text z) \<le> bs')"
      then obtain ys x' zs where h: "xs = ys @ x' # zs" "bm' = Some x'"
        "bs' = calculate_similarity fz wt (xml_text x')" "?s < bs'"
        "\<forall>y\<in>set ys. calculate_similarity fz wt (xml_text y) < bs'"
        "\<forall>z\<in>set zs. calculate_similarity fz wt (xml_text z) \<le> bs'" by blast
      then have "x # xs = (x # ys) @ x' # zs \<and> bm' = Some x'
           \<and> bs' = calculate_similarity fz wt (xml_text x') \<and> bs < bs'
           \<and> (\<forall>y\<in>set (x # ys). calculate_similarity fz wt (xml_text y) < bs')
           \<and> (\<forall>z\<in>set zs. calculate_similarity fz wt (xml_text z) \<le> bs')"
        using True by auto
      then show ?thesis by blast
    qed
  next
    case False
    then have "fold (best_step fz wt) xs (bm, bs) = (bm', bs')"
      using Cons.prems by (simp add: best_step_pair)
    from Cons.IH[OF this] show ?thesis
    proof
      assume "(bm', bs') = (bm, bs) \<and> (\<forall>x\<in>set xs. calculate_similarity fz wt (xml_text x) \<le> bs)"
      then show ?thesis using False by auto
    next
      assume "\<exists>ys x' zs. xs = ys @ x' # zs \<and> bm' = Some x'
           \<and> bs' = calculate_similarity fz wt (xml_text x') \<and> bs < bs'
           \<and> (\<forall>y\<in>set ys. calculate_similarity fz wt (xml_text y) < bs')
           \<and> (\<forall>z\<in>set zs. calculate_similarity fz wt (xml_text z) \<le> bs')"
      then obtain ys x' zs where h: "xs = ys @ x' # zs" "bm' = Some x'"
        "bs' = calculate_similarity fz wt (xml_text x')" "bs < bs'"
        "\<forall>y\<in>set ys. calculate_similarity fz wt (xml_text y) < bs'"
        "\<forall>z\<in>set zs. calculate_similarity fz wt (xml_text z) \<le> bs'" by blast
      then have "x # xs = (x # ys) @ x' # zs \<and> bm' = Some x'
           \<and> bs' = calculate_similarity fz wt (xml_text x') \<and> bs < bs'
           \<and> (\<forall>y\<in>set (x # ys). calculate_similarity fz wt (xml_text y) < bs')
           \<and> (\<forall>z\<in>set zs. calculate_similarity fz wt (xml_text z) \<le> bs')"
        using False by auto
      then show ?thesis by blast
    qed
  qed
qed

text \<open>What \<open>find_best_match\<close> returns, case by case.\<close>

lemma find_best_match_cases:
  "(find_best_match fz thr w pool = None
      \<and> (\<forall>x\<in>set pool. calculate_similarity fz (word_text w) (xml_text x) < thr) \<and> 0 < thr)
   \<or> (find_best_match fz thr w pool = Some (None, 0) \<and> thr \<le> 0
      \<and> (\<forall>x\<in>set pool. calculate_similarity fz (word_text w) (xml_text x) \<le> 0))
   \<or> (\<exists>ys x zs. pool = ys @ x # zs
      \<and> (\<forall>y\<in>set ys. calculate_similarity fz (word_text w) (xml_text y)
                       < calculate_similarity fz (word_text w) (xml_text x))
      \<and> (\<forall>z\<in>set zs. calculate_similarity fz (word_text w) (xml_text z)
                       \<le> calculate_similarity fz (word_text w) (xml_text x))
      \<and> 0 < calculate_similarity fz (word_text w) (xml_text x)
      \<and> find_best_match fz thr w pool =
          (if thr \<le> calculate_similarity fz (word_text w) (xml_text x)
           then Some (Some x, calculate_similarity fz (word_text w) (xml_text x)) else None))"
proof -
  obtain bm bs where f: "fold (best_step fz (word_text w)) pool (None, 0) = (bm, bs)"
    by (cases "fold (best_step fz (word_text w)) pool (None, 0)")
  from fold_best_step[OF f] show ?thesis
  proof
    assume a: "(bm, bs) = (None, 0) \<and> (\<forall>x\<in>set pool. calculate_similarity fz (word_text w) (xml_text x) \<le> 0)"
    show ?thesis
    proof (cases "0 < thr")
      case True
      then have "find_best_match fz thr w pool = None" using a f by (auto simp: find_best_match_def)
      moreover have "\<forall>x\<in>set pool. calculate_similarity fz (word_text w) (xml_text x) < thr"
        using a True by force
      ultimately show ?thesis using True by blast
    next
      case False
      then have "find_best_match fz thr w pool = Some (None, 0)"
        using a f by (auto simp: find_best_match_def)
      then show ?thesis using a False by auto
    qed
  next
    assume "\<exists>ys x zs. pool = ys @ x # zs \<and> bm = Some x
           \<and> bs = calculate_similarity fz (word_text w) (xml_text x) \<and> 0 < bs
           \<and> (\<forall>y\<in>set ys. calculate_similarity fz (word_text w) (xml_text y) < bs)
           \<and> (\<forall>z\<in>set zs. calculate_similarity fz (word_text w) (xml_text z) \<le> bs)"
    then obtain ys x zs where h: "pool = ys @ x # zs" "bm = Some x"
        "bs = calculate_similarity fz (word_text w) (xml_text x)" "0 < bs"
        "\<forall>y\<in>set ys. calculate_similarity fz (word_text w) (xml_text y) < bs"
        "\<forall>z\<in>set zs. calculate_similarity fz (word_text w) (xml_text z) \<le> bs" by blast
    have "find_best_match fz thr w pool =
          (if thr \<le> calculate_similarity fz (word_text w) (xml_text x)
           then Some (Some x, calculate_similarity fz (word_text w) (xml_text x)) else None)"
      using f h by (simp add: find_best_match_def)
    then show ?thesis using h by blast
  qed
qed


lemma find_best_match_member:
  "find_best_match fz thr w pool = Some (Some x, s) \<Longrightarrow>
     x \<in> set pool \<and> s = calculate_similarity fz (word_text w) (xml_text x) \<and> thr \<le> s"
  using find_best_match_cases[of fz thr w pool] by (auto split: if_splits)

text \<open>One round of \<open>match_loop\<close>, for each of the three outcomes of the search.\<close>

lemma match_loop_unmatched:
  assumes "find_best_match fz thr w (unmatched_xml st) = None"
  shows "match_loop fz thr (w # rest) st =
         match_loop fz thr rest (st\<lparr>unmatched_word := unmatched_word st @ [w]\<rparr>)"
  using assms by simp

lemma match_loop_matched:
  assumes "find_best_match fz thr w (unmatched_xml st) = Some (Some x, s)"
  shows "match_loop fz thr (w # rest) st =
         match_loop fz thr rest
           (st\<lparr>matches := matches st @
                  [\<lparr>word_question = w, xml_question = x, similarity_score = s\<rparr>],
               unmatched_xml := remove1 x (unmatched_xml st)\<rparr>)"
  using assms find_best_match_member[OF assms] by simp

lemma match_loop_raises:
  assumes "find_best_match fz thr w (unmatched_xml st) = Some (None, s)"
  shows "match_loop fz thr (w # rest) st = Inl ValueError"
  using assms by simp

text \<open>An invariant of the loop holds of its result.\<close>

lemma match_loop_invariant:
  assumes "match_loop fz thr ws st = Inr r" and "P st"
    and unmatched: "\<And>w st. P st \<Longrightarrow> find_best_match fz thr w (unmatched_xml st) = None \<Longrightarrow>
           P (st\<lparr>unmatched_word := unmatched_word st @ [w]\<rparr>)"
    and matched: "\<And>w st x s. P st \<Longrightarrow>
           find_best_match fz thr w (unmatched_xml st) = Some (Some x, s) \<Longrightarrow>
           P (st\<lparr>matches := matches st @
                  [\<lparr>word_question = w, xml_question = x, similarity_score = s\<rparr>],
               unmatched_xml := remove1 x (unmatched_xml st)\<rparr>)"
  shows "P r"
  using assms(1,2)
proof (induction ws arbitrary: st)
  case Nil
  then show ?case by simp
next
  case (Cons w ws)
  show ?case
  proof (cases "find_best_match fz thr w (unmatched_xml st)")
    case None
    from Cons.prems(1) have "match_loop fz thr ws (st\<lparr>unmatched_word := unmatched_word st @ [w]\<rparr>) = Inr r"
      by (simp only: match_loop_unmatched[OF None])
    then show ?thesis using unmatched[OF Cons.prems(2) None] by (rule Cons.IH)
  next
    case (Some bs)
    obtain b s where bs: "bs = (b, s)" by (cases bs)
    show ?thesis
    proof (cases b)
      case None
      with Some bs Cons.prems(1) show ?thesis by (simp only: match_loop_raises) simp
    next
      case (Some x)
      with \<open>find_best_match fz thr w (unmatched_xml st) = Some bs\<close> bs
      have f: "find_best_match fz thr w (unmatched_xml st) = Some (Some x, s)" by simp
      from Cons.prems(1) have "match_loop fz thr ws
           (st\<lparr>matches := matches st @
                  [\<lparr>word_question = w, xml_question = x, similarity_score = s\<rparr>],
               unmatched_xml := remove1 x (unmatched_xml st)\<rparr>) = Inr r"
        by (simp only: match_loop_matched[OF f])
      then show ?thesis using matched[OF Cons.prems(2) f] by (rule Cons.IH)
    qed
  qed
qed

lemma match_loop_total:
  assumes "0 < thr"
  shows "\<exists>r. match_loop fz thr ws st = Inr r"
proof (induction ws arbitrary: st)
  case Nil
  then show ?case by simp
next
  case (Cons w ws)
  show ?case
  proof (cases "find_best_match fz thr w (unmatched_xml st)")
    case None
    show ?thesis by (simp only: match_loop_unmatched[OF None] Cons.IH)
  next
    case (Some bs)
    obtain b s where bs: "bs = (b, s)" by (cases bs)
    have "b \<noteq> None"
      using find_best_match_cases[of fz thr w "unmatched_xml st"] Some bs assms
      by (auto split: if_splits)
    then obtain x where "b = Some x" by auto
    with Some bs have f: "find_best_match fz thr w (unmatched_xml st) = Some (Some x, s)" by simp
    show ?thesis by (simp only: match_loop_matched[OF f] Cons.IH)
  qed
qed

lemma sample_run: "match_questions exact_fuzz (4 / 5) sample_words sample_xmls = Inr sample_result"
proof -
  obtain r where "match_questions exact_fuzz (4 / 5) sample_words sample_xmls = Inr r"
    using match_loop_total[of "4 / 5"] unfolding match_questions_def by fastforce
  then show ?thesis by (simp add: sample_result_def)
qed

subsection \<open>The partition of the structured units\<close>

lemma match_questions_partition:
  assumes "match_questions fz thr ws xs = Inr r"
  shows "mset (map xml_question (matches r)) + mset (unmatched_xml r) = mset xs"
proof -
  let ?P = "\<lambda>st. mset (map xml_question (matches st)) + mset (unmatched_xml st) = mset xs"
  have "?P r"
  proof (rule match_loop_invariant[where P = ?P, OF assms[unfolded match_questions_def]])
    show "?P \<lparr>matches = [], unmatched_word = [], unmatched_xml = xs\<rparr>" by simp
  next
    fix w st assume "?P st"
    then show "?P (st\<lparr>unmatched_word := unmatched_word st @ [w]\<rparr>)" by simp
  next
    fix w st x s
    assume p: "?P st" and f: "find_best_match fz thr w (unmatched_xml st) = Some (Some x, s)"
    have x: "x \<in> set (unmatched_xml st)" using find_best_match_member[OF f] by simp
    let ?A = "mset (map xml_question (matches st))"
    let ?B = "mset (unmatched_xml st)"
    let ?st = "st\<lparr>matches := matches st @
                  [\<lparr>word_question = w, xml_question = x, similarity_score = s\<rparr>],
               unmatched_xml := remove1 x (unmatched_xml st)\<rparr>"
    have "mset (map xml_question (matches ?st)) + mset (unmatched_xml ?st)
          = ?A + add_mset x (?B - {#x#})"
      by simp
    also have "add_mset x (?B - {#x#}) = ?B" using x by (simp add: insert_DiffM)
    also have "?A + ?B = mset xs" by (rule p)
    finally show "?P ?st" .
  qed
  then show ?thesis .
qed



lemma process_survey_pair_cases:
  assumes "process_survey_pair lx fz thr cap title w_text markup = Inr r"
  shows "(word_extract_questions cap w_text = [] \<and> matches r = [] \<and> unmatched_word r = []
            \<and> unmatched_xml r = xml_extract_questions lx markup)
       \<or> (word_extract_questions cap w_text \<noteq> [] \<and> xml_extract_questions lx markup = []
            \<and> matches r = [] \<and> unmatched_word r = word_extract_questions cap w_text
            \<and> unmatched_xml r = [])
       \<or> (\<exists>r'. match_questions fz thr (word_extract_questions cap w_text)
                   (xml_extract_questions lx markup) = Inr r'
              \<and> matches r = matches r' \<and> unmatched_word r = unmatched_word r'
              \<and> unmatched_xml r = unmatched_xml r')"
  using assms
  by (auto simp: process_survey_pair_def Let_def split: if_splits sum.splits)

lemma process_survey_pair_partition:
  assumes "process_survey_pair lx fz thr cap title w_text markup = Inr r"
  shows "mset (map xml_question (matches r)) + mset (unmatched_xml r)
         = mset (xml_extract_questions lx markup)"
  using process_survey_pair_cases[OF assms] match_questions_partition
  by (elim disjE) auto

text \<open>
  C3. Whatever the two lists of units and the threshold, a result of the aligner divides
  the structured units: those referenced by the matches together with those listed as
  unmatched are, as a multiset, the input list, so a structured unit is consumed by at
  most one pair and none appears twice unless the input repeats it. The same holds for
  the result of the driver, where the extracted structured units are distinct, so that
  no unit appears twice at all. The aligner returns a result for every positive
  threshold.
\<close>

theorem structured_side_partition:
  "(match_questions fz thr ws xs = Inr r \<longrightarrow>
      mset (map xml_question (matches r)) + mset (unmatched_xml r) = mset xs
      \<and> (distinct xs \<longrightarrow> distinct (map xml_question (matches r) @ unmatched_xml r)))
   \<and> (process_survey_pair lx fz thr cap title w_text markup = Inr r' \<longrightarrow>
      mset (map xml_question (matches r')) + mset (unmatched_xml r')
        = mset (xml_extract_questions lx markup)
      \<and> distinct (map xml_question (matches r') @ unmatched_xml r'))
   \<and> (0 < thr \<longrightarrow> (\<exists>r. match_questions fz thr ws xs = Inr r))"
proof (intro conjI impI)
  assume a: "match_questions fz thr ws xs = Inr r"
  then show p: "mset (map xml_question (matches r)) + mset (unmatched_xml r) = mset xs"
    by (rule match_questions_partition)
  assume "distinct xs"
  moreover have "mset (map xml_question (matches r) @ unmatched_xml r) = mset xs"
    using p by simp
  ultimately show "distinct (map xml_question (matches r) @ unmatched_xml r)"
    by (metis mset_eq_imp_distinct_iff)
next
  assume "process_survey_pair lx fz thr cap title w_text markup = Inr r'"
  then show q: "mset (map xml_question (matches r')) + mset (unmatched_xml r')
        = mset (xml_extract_questions lx markup)"
    by (rule process_survey_pair_partition)
  have "mset (map xml_question (matches r') @ unmatched_xml r')
        = mset (xml_extract_questions lx markup)"
    using q by simp
  then show "distinct (map xml_question (matches r') @ unmatched_xml r')"
    using xml_units_distinct(2)[of lx markup] by (metis mset_eq_imp_distinct_iff)
next
  assume "0 < thr"
  then show "\<exists>r. match_questions fz thr ws xs = Inr r"
    unfolding match_questions_def by (rule match_loop_total)
qed

subsection \<open>Scores\<close>

text \<open>Rounding to the nearest double is monotone.\<close>

lemma rhe_of_int [simp]: "round_half_even (of_int n) = n"
  by (simp add: round_half_even_def)

lemma rhe_floor: "\<lfloor>x\<rfloor> \<le> round_half_even x" "round_half_even x \<le> \<lfloor>x\<rfloor> + 1"
  by (simp_all add: round_half_even_def Let_def)

lemma rhe_mono:
  assumes "x \<le> y"
  shows "round_half_even x \<le> round_half_even y"
proof (cases "\<lfloor>x\<rfloor> = \<lfloor>y\<rfloor>")
  case True
  then have "x - of_int \<lfloor>x\<rfloor> \<le> y - of_int \<lfloor>y\<rfloor>" using assms by simp
  then show ?thesis using True by (auto simp: round_half_even_def Let_def)
next
  case False
  then have "\<lfloor>x\<rfloor> < \<lfloor>y\<rfloor>" using assms floor_mono[of x y] by linarith
  then show ?thesis using rhe_floor(2)[of x] rhe_floor(1)[of y] by linarith
qed


lemma binade_bounds:
  assumes "0 < x"
  shows "2 powi binade x \<le> x" and "x < 2 powi (binade x + 1)"
proof -
  obtain p q where pq: "quotient_of x = (p, q)" by (cases "quotient_of x")
  have q: "0 < q" using pq by (rule quotient_of_denom_pos)
  have x: "x = of_int p / of_int q" using pq by (rule quotient_of_div)
  have p: "0 < p" using assms q x by (simp add: zero_less_divide_iff)
  let ?bp = "bitlen p" and ?bq = "bitlen q"
  have bp1: "1 \<le> ?bp" and bq1: "1 \<le> ?bq"
    using p q bitlen_eq_zero_iff[of p] bitlen_eq_zero_iff[of q] bitlen_nonneg[of p] bitlen_nonneg[of q]
    by linarith+
  have "(2::int) ^ nat (?bp - 1) \<le> p" "p < 2 ^ nat ?bp"
    using bitlen_bounds[OF p] by simp_all
  then have "(of_int (2 ^ nat (?bp - 1)) :: rat) \<le> of_int p" "(of_int p :: rat) < of_int (2 ^ nat ?bp)"
    by (simp_all only: of_int_le_iff of_int_less_iff)
  then have P: "(2::rat) powi (?bp - 1) \<le> of_int p" "(of_int p :: rat) < 2 powi ?bp"
    using bp1 by (simp_all add: power_int_def)
  have "(2::int) ^ nat (?bq - 1) \<le> q" "q < 2 ^ nat ?bq"
    using bitlen_bounds[OF q] by simp_all
  then have "(of_int (2 ^ nat (?bq - 1)) :: rat) \<le> of_int q" "(of_int q :: rat) < of_int (2 ^ nat ?bq)"
    by (simp_all only: of_int_le_iff of_int_less_iff)
  then have Q: "(2::rat) powi (?bq - 1) \<le> of_int q" "(of_int q :: rat) < 2 powi ?bq"
    using bq1 by (simp_all add: power_int_def)
  let ?k = "?bp - ?bq"
  have "x < 2 powi ?bp / 2 powi (?bq - 1)"
    unfolding x using p q P Q by (intro frac_less) simp_all
  also have "(2::rat) powi ?bp / 2 powi (?bq - 1) = 2 powi (?k + 1)"
    by (simp add: power_int_diff[symmetric] algebra_simps)
  finally have up: "x < 2 powi (?k + 1)" .
  have "(2::rat) powi (?bp - 1) / 2 powi ?bq < x"
    unfolding x using p q P Q by (intro frac_less2) simp_all
  moreover have "(2::rat) powi (?bp - 1) / 2 powi ?bq = 2 powi (?k - 1)"
    by (simp add: power_int_diff[symmetric] algebra_simps)
  ultimately have lo: "2 powi (?k - 1) < x" by simp
  have b: "binade x = (if 2 powi ?k \<le> x then ?k else ?k - 1)"
    by (simp add: binade_def pq Let_def)
  show "2 powi binade x \<le> x" using lo by (simp add: b)
  show "x < 2 powi (binade x + 1)" using up by (simp add: b)
qed

lemma binade_mono:
  assumes "0 < x" "x \<le> y"
  shows "binade x \<le> binade y"
proof -
  have "(2::rat) powi binade x < 2 powi (binade y + 1)"
    using binade_bounds(1)[OF assms(1)] binade_bounds(2)[of y] assms by linarith
  then have "binade x < binade y + 1"
    by (metis not_less one_le_numeral power_int_increasing)
  then show ?thesis by simp
qed

lemma two_powi_add: "(2::rat) powi a * 2 powi b = 2 powi (a + b)"
  by (simp add: power_int_add)

lemma ulp_pos: "0 < ulp x"
  by (simp add: ulp_def)

text \<open>A positive number and its rounding lie in the same closed binade.\<close>

lemma double_pos_eq: "0 < x \<Longrightarrow> double x = of_int (round_half_even (x / ulp x)) * ulp x"
  by (simp add: double_def)

lemma double_upper:
  assumes "0 < x"
  shows "double x \<le> 2 powi (max (binade x) (- 1022) + 1)"
proof -
  let ?e = "max (binade x) (- 1022)"
  have u: "ulp x = 2 powi (?e - 52)" by (simp add: ulp_def)
  have "x < 2 powi (binade x + 1)" using binade_bounds(2)[OF assms] .
  also have "\<dots> \<le> 2 powi (?e + 1)" by (intro power_int_increasing) simp_all
  finally have "x \<le> 2 powi (?e + 1)" by simp
  then have "x / ulp x \<le> 2 powi (?e + 1) / ulp x"
    using ulp_pos[of x] by (simp add: divide_right_mono)
  also have "2 powi (?e + 1) / ulp x = 2 powi 53"
    unfolding u by (simp add: power_int_diff[symmetric])
  also have "(2::rat) powi 53 = of_int (2 ^ 53)" by simp
  finally have "round_half_even (x / ulp x) \<le> 2 ^ 53"
    using rhe_mono[of "x / ulp x" "of_int (2 ^ 53)"] by (simp only: rhe_of_int)
  then have "(of_int (round_half_even (x / ulp x)) :: rat) \<le> of_int (2 ^ 53)"
    by (simp only: of_int_le_iff)
  then have "double x \<le> of_int (2 ^ 53) * ulp x"
    unfolding double_pos_eq[OF assms] using ulp_pos[of x] by (simp add: mult_right_mono)
  also have "of_int (2 ^ 53) * ulp x = 2 powi 53 * 2 powi (?e - 52)" unfolding u by simp
  also have "\<dots> = 2 powi (?e + 1)" using two_powi_add[of 53 "?e - 52"] by (simp add: add.commute)
  finally show ?thesis .
qed

lemma double_lower:
  assumes "0 < x" "- 1022 \<le> binade x"
  shows "2 powi binade x \<le> double x"
proof -
  let ?e = "binade x"
  have u: "ulp x = 2 powi (?e - 52)" using assms(2) by (simp add: ulp_def max_def)
  have "2 powi ?e / ulp x \<le> x / ulp x"
    using binade_bounds(1)[OF assms(1)] ulp_pos[of x] by (simp add: divide_right_mono)
  moreover have "2 powi ?e / ulp x = 2 powi 52"
    unfolding u by (simp add: power_int_diff[symmetric])
  moreover have "(2::rat) powi 52 = of_int (2 ^ 52)" by simp
  ultimately have "of_int (2 ^ 52) \<le> x / ulp x" by simp
  then have "2 ^ 52 \<le> round_half_even (x / ulp x)"
    using rhe_mono[of "of_int (2 ^ 52)" "x / ulp x"] by (simp only: rhe_of_int)
  then have "(of_int (2 ^ 52) :: rat) \<le> of_int (round_half_even (x / ulp x))"
    by (simp only: of_int_le_iff)
  then have "of_int (2 ^ 52) * ulp x \<le> double x"
    unfolding double_pos_eq[OF assms(1)] using ulp_pos[of x] by (simp add: mult_right_mono)
  moreover have "of_int (2 ^ 52) * ulp x = 2 powi 52 * 2 powi (?e - 52)" unfolding u by simp
  moreover have "(2::rat) powi 52 * 2 powi (?e - 52) = 2 powi ?e"
    using two_powi_add[of 52 "?e - 52"] by simp
  ultimately show ?thesis by simp
qed

lemma double_mono_pos:
  assumes "0 < x" "x \<le> y"
  shows "double x \<le> double y"
proof -
  have y: "0 < y" using assms by simp
  let ?ex = "max (binade x) (- 1022)" and ?ey = "max (binade y) (- 1022)"
  have le: "?ex \<le> ?ey" using binade_mono[OF assms] by simp
  show ?thesis
  proof (cases "?ex = ?ey")
    case True
    then have u: "ulp x = ulp y" by (simp add: ulp_def)
    have "x / ulp y \<le> y / ulp y" using assms(2) ulp_pos[of y] by (simp add: divide_right_mono)
    then have "round_half_even (x / ulp y) \<le> round_half_even (y / ulp y)" by (rule rhe_mono)
    then have "(of_int (round_half_even (x / ulp y)) :: rat) \<le> of_int (round_half_even (y / ulp y))"
      by (simp only: of_int_le_iff)
    then show ?thesis
      unfolding double_pos_eq[OF assms(1)] double_pos_eq[OF y] u
      using ulp_pos[of y] by (simp add: mult_right_mono)
  next
    case False
    have lt: "?ex < ?ey" using le False unfolding order.strict_iff_order by blast
    have bny: "- 1022 \<le> binade y" "?ey = binade y" using lt by arith+
    have "double x \<le> 2 powi (?ex + 1)" by (rule double_upper[OF assms(1)])
    also have "(2::rat) powi (?ex + 1) \<le> 2 powi binade y"
    proof (intro power_int_increasing)
      show "?ex + 1 \<le> binade y" using lt bny(2) by arith
    qed simp
    also have "\<dots> \<le> double y" by (rule double_lower[OF y bny(1)])
    finally show ?thesis .
  qed
qed

lemma double_zero [simp]: "double 0 = 0"
  by (simp add: double_def)

lemma double_nonneg:
  assumes "0 \<le> x"
  shows "0 \<le> double x"
proof (cases "x = 0")
  case True
  then show ?thesis by simp
next
  case False
  then have x: "0 < x" using assms by simp
  have "0 \<le> x / ulp x" using x ulp_pos[of x] by simp
  then have "round_half_even (of_int 0) \<le> round_half_even (x / ulp x)"
    by (intro rhe_mono) simp
  then have "0 \<le> round_half_even (x / ulp x)" by (simp only: rhe_of_int)
  then show ?thesis unfolding double_pos_eq[OF x] using ulp_pos[of x] by simp
qed

lemma double_mono:
  assumes "0 \<le> x" "x \<le> y"
  shows "double x \<le> double y"
proof (cases "x = 0")
  case True
  then show ?thesis using double_nonneg[of y] assms by simp
next
  case False
  then show ?thesis using assms by (intro double_mono_pos) simp_all
qed

text \<open>
  The largest score, that of three ratios of 100, is exactly 1; every other score is
  below it because each rounded operation is monotone in its non-negative arguments.
\<close>

lemma top_score:
  "double 100 = 100" "double (100 / 100) = 1"
  "double (double (double (1 * double (3 / 10)) + double (1 * double (3 / 10)))
           + double (1 * double (4 / 10))) = 1"
  by code_simp+

lemma percent_double:
  assumes "0 \<le> (n::int)" "n \<le> 100"
  shows "0 \<le> double (double (of_int n) / 100)" "double (double (of_int n) / 100) \<le> 1"
proof -
  have n: "0 \<le> (of_int n :: rat)" "(of_int n :: rat) \<le> 100" using assms by simp_all
  have a: "0 \<le> double (of_int n)" using n(1) by (rule double_nonneg)
  have "double (of_int n) \<le> double 100" using n by (rule double_mono)
  then have b: "double (of_int n) \<le> 100" by (simp only: top_score)
  show "0 \<le> double (double (of_int n) / 100)" using a by (intro double_nonneg) simp
  have "double (double (of_int n) / 100) \<le> double (100 / 100)"
    using a b by (intro double_mono) simp_all
  then show "double (double (of_int n) / 100) \<le> 1" by (simp only: top_score)
qed

lemma weighted_double:
  assumes "0 \<le> x" "x \<le> 1" "0 \<le> w"
  shows "0 \<le> double (x * double w)" "double (x * double w) \<le> double (1 * double w)"
proof -
  have w: "0 \<le> double w" using assms(3) by (rule double_nonneg)
  show "0 \<le> double (x * double w)" using assms(1) w by (intro double_nonneg) simp
  have "x * double w \<le> 1 * double w" using assms(2) w by (rule mult_right_mono)
  then show "double (x * double w) \<le> double (1 * double w)"
    using assms(1) w by (intro double_mono) simp_all
qed

lemma calculate_similarity_range:
  assumes "\<forall>a b. 0 \<le> ratio fz a b \<and> ratio fz a b \<le> 100
             \<and> 0 \<le> partial_ratio fz a b \<and> partial_ratio fz a b \<le> 100
             \<and> 0 \<le> token_sort_ratio fz a b \<and> token_sort_ratio fz a b \<le> 100"
  shows "0 \<le> calculate_similarity fz t1 t2 \<and> calculate_similarity fz t1 t2 \<le> 1"
proof -
  let ?a = "normalize_text t1" and ?b = "normalize_text t2"
  let ?r = "double (double (of_int (ratio fz ?a ?b)) / 100)"
  let ?p = "double (double (of_int (partial_ratio fz ?a ?b)) / 100)"
  let ?t = "double (double (of_int (token_sort_ratio fz ?a ?b)) / 100)"
  let ?A = "double (?r * double (3 / 10))"
  let ?B = "double (?p * double (3 / 10))"
  let ?C = "double (?t * double (4 / 10))"
  have r: "0 \<le> ?r" "?r \<le> 1"
    using percent_double[of "ratio fz ?a ?b"] assms by blast+
  have p: "0 \<le> ?p" "?p \<le> 1"
    using percent_double[of "partial_ratio fz ?a ?b"] assms by blast+
  have t: "0 \<le> ?t" "?t \<le> 1"
    using percent_double[of "token_sort_ratio fz ?a ?b"] assms by blast+
  have A: "0 \<le> ?A" "?A \<le> double (1 * double (3 / 10))"
    using weighted_double[OF r, of "3 / 10"] by simp_all
  have B: "0 \<le> ?B" "?B \<le> double (1 * double (3 / 10))"
    using weighted_double[OF p, of "3 / 10"] by simp_all
  have C: "0 \<le> ?C" "?C \<le> double (1 * double (4 / 10))"
    using weighted_double[OF t, of "4 / 10"] by simp_all
  have S: "0 \<le> double (?A + ?B)"
    "double (?A + ?B) \<le> double (double (1 * double (3 / 10)) + double (1 * double (3 / 10)))"
  proof -
    show "0 \<le> double (?A + ?B)" using A(1) B(1) by (intro double_nonneg) simp
    show "double (?A + ?B) \<le> double (double (1 * double (3 / 10)) + double (1 * double (3 / 10)))"
      using A B by (intro double_mono) linarith+
  qed
  have e: "calculate_similarity fz t1 t2 = double (double (?A + ?B) + ?C)"
    by (simp add: calculate_similarity_def Let_def)
  have "0 \<le> double (double (?A + ?B) + ?C)" using S(1) C(1) by (intro double_nonneg) simp
  moreover have "double (double (?A + ?B) + ?C)
        \<le> double (double (double (1 * double (3 / 10)) + double (1 * double (3 / 10)))
                    + double (1 * double (4 / 10)))"
    using S C by (intro double_mono) linarith+
  then have "double (double (?A + ?B) + ?C) \<le> 1" by (simp only: top_score)
  ultimately show ?thesis unfolding e by simp
qed

lemma match_questions_scores:
  assumes "match_questions fz thr ws xs = Inr r"
  shows "\<forall>m\<in>set (matches r). thr \<le> similarity_score m
           \<and> similarity_score m =
               calculate_similarity fz (word_text (word_question m)) (xml_text (xml_question m))"
proof -
  let ?P = "\<lambda>st. \<forall>m\<in>set (matches st). thr \<le> similarity_score m
           \<and> similarity_score m =
               calculate_similarity fz (word_text (word_question m)) (xml_text (xml_question m))"
  have "?P r"
  proof (rule match_loop_invariant[where P = ?P, OF assms[unfolded match_questions_def]])
    show "?P \<lparr>matches = [], unmatched_word = [], unmatched_xml = xs\<rparr>" by simp
  next
    fix w st assume "?P st"
    then show "?P (st\<lparr>unmatched_word := unmatched_word st @ [w]\<rparr>)" by fastforce
  next
    fix w st x s
    assume p: "?P st" and f: "find_best_match fz thr w (unmatched_xml st) = Some (Some x, s)"
    show "?P (st\<lparr>matches := matches st @
                  [\<lparr>word_question = w, xml_question = x, similarity_score = s\<rparr>],
               unmatched_xml := remove1 x (unmatched_xml st)\<rparr>)"
      using p find_best_match_member[OF f] by auto
  qed
  then show ?thesis .
qed

text \<open>
  C4. The composite score, computed in floating point as the code computes it, lies
  between 0 and 1 for every pair of strings, provided each of the three ratios of the
  library is a percentage between 0 and 100; every pair that the aligner accepts carries
  the score of its two question texts, and that score is at least the threshold and at
  most 1.
\<close>

theorem accepted_scores_in_range:
  assumes "\<forall>a b. 0 \<le> ratio fz a b \<and> ratio fz a b \<le> 100
             \<and> 0 \<le> partial_ratio fz a b \<and> partial_ratio fz a b \<le> 100
             \<and> 0 \<le> token_sort_ratio fz a b \<and> token_sort_ratio fz a b \<le> 100"
  shows "0 \<le> calculate_similarity fz t1 t2 \<and> calculate_similarity fz t1 t2 \<le> 1
     \<and> (match_questions fz thr ws xs = Inr r \<longrightarrow>
          (\<forall>m\<in>set (matches r).
             similarity_score m =
               calculate_similarity fz (word_text (word_question m)) (xml_text (xml_question m))
             \<and> thr \<le> similarity_score m \<and> similarity_score m \<le> 1))
     \<and> (process_survey_pair lx fz thr cap title w_text markup = Inr r' \<longrightarrow>
          (\<forall>m\<in>set (matches r'). thr \<le> similarity_score m \<and> similarity_score m \<le> 1))"
proof (intro conjI impI)
  show "0 \<le> calculate_similarity fz t1 t2" "calculate_similarity fz t1 t2 \<le> 1"
    using calculate_similarity_range[OF assms] by blast+
next
  assume "match_questions fz thr ws xs = Inr r"
  from match_questions_scores[OF this] calculate_similarity_range[OF assms]
  show "\<forall>m\<in>set (matches r).
             similarity_score m =
               calculate_similarity fz (word_text (word_question m)) (xml_text (xml_question m))
             \<and> thr \<le> similarity_score m \<and> similarity_score m \<le> 1"
    by auto
next
  assume "process_survey_pair lx fz thr cap title w_text markup = Inr r'"
  from process_survey_pair_cases[OF this]
  show "\<forall>m\<in>set (matches r'). thr \<le> similarity_score m \<and> similarity_score m \<le> 1"
  proof (elim disjE exE conjE)
    fix r'' assume m: "match_questions fz thr (word_extract_questions cap w_text)
                   (xml_extract_questions lx markup) = Inr r''" and e: "matches r' = matches r''"
    from match_questions_scores[OF m] calculate_similarity_range[OF assms]
    show ?thesis unfolding e by auto
  qed simp_all
qed

subsection \<open>An empty side\<close>

lemma match_loop_empty_pool:
  assumes "0 < thr"
  shows "match_loop fz thr ws \<lparr>matches = ms, unmatched_word = uw, unmatched_xml = []\<rparr>
         = Inr \<lparr>matches = ms, unmatched_word = uw @ ws, unmatched_xml = []\<rparr>"
proof (induction ws arbitrary: uw)
  case Nil
  then show ?case by simp
next
  case (Cons w ws)
  have "find_best_match fz thr w [] = None" using assms by (simp add: find_best_match_def)
  then show ?case using Cons.IH[of "uw @ [w]"] by simp
qed

text \<open>
  When the segmenter or the markup extractor finds nothing, the driver returns a result
  without pairs, in which every unit of the other side is unmatched, before it calls the
  matcher, whatever the threshold. The matcher itself, given no Word unit, returns every
  structured unit as unmatched, and given no structured unit and a positive threshold,
  returns every Word unit as unmatched.
\<close>

lemma empty_side_gives_no_pairs:
  "(word_extract_questions cap w_text = [] \<longrightarrow>
      process_survey_pair lx fz thr cap title w_text markup =
        Inr \<lparr>matches = [], unmatched_word = [],
             unmatched_xml = xml_extract_questions lx markup, survey_title = title\<rparr>)
   \<and> (xml_extract_questions lx markup = [] \<longrightarrow>
      process_survey_pair lx fz thr cap title w_text markup =
        Inr \<lparr>matches = [], unmatched_word = word_extract_questions cap w_text,
             unmatched_xml = [], survey_title = title\<rparr>)
   \<and> match_questions fz thr [] xs = Inr \<lparr>matches = [], unmatched_word = [], unmatched_xml = xs\<rparr>
   \<and> (0 < thr \<longrightarrow>
      match_questions fz thr ws [] = Inr \<lparr>matches = [], unmatched_word = ws, unmatched_xml = []\<rparr>)"
  using match_loop_empty_pool[of thr fz ws "[]" "[]"]
  by (auto simp: process_survey_pair_def Let_def match_questions_def)


subsection \<open>The content blocks play no part in matching\<close>

lemma replace_keeps_text [simp]:
  "word_text (replace_content c w) = word_text w"
  "xml_text (replace_section d x) = xml_text x"
  by (simp_all add: replace_content_def replace_section_def)

lemma fold_best_step_replace:
  "fold (best_step fz wt) (map (replace_section d) xs) (map_option (replace_section d) bm, bs) =
     (case fold (best_step fz wt) xs (bm, bs) of (b, s) \<Rightarrow> (map_option (replace_section d) b, s))"
proof (induction xs arbitrary: bm bs)
  case Nil
  then show ?case by simp
next
  case (Cons x xs)
  show ?case
    using Cons.IH[of "Some x" "calculate_similarity fz wt (xml_text x)"] Cons.IH[of bm bs]
    by (simp add: best_step_pair)
qed

lemma find_best_match_replace:
  "find_best_match fz thr (replace_content c w) (map (replace_section d) pool) =
     map_option (\<lambda>(b, s). (map_option (replace_section d) b, s)) (find_best_match fz thr w pool)"
  using fold_best_step_replace[of fz "word_text w" d pool None 0]
  by (simp add: find_best_match_def split: prod.splits)

lemma remove1_first_best:
  assumes "find_best_match fz thr w pool = Some (Some x, s)"
  shows "remove1 (replace_section d x) (map (replace_section d) pool)
         = map (replace_section d) (remove1 x pool)"
proof -
  let ?sc = "\<lambda>y. calculate_similarity fz (word_text w) (xml_text y)"
  from find_best_match_cases[of fz thr w pool] assms
  obtain ys x' zs where h: "pool = ys @ x' # zs" "\<forall>y\<in>set ys. ?sc y < ?sc x'"
    "find_best_match fz thr w pool = (if thr \<le> ?sc x' then Some (Some x', ?sc x') else None)"
    by auto
  with assms have x: "x' = x" by (auto split: if_splits)
  have a: "x \<notin> set ys" using h(2) x by auto
  have b: "replace_section d x \<notin> set (map (replace_section d) ys)"
  proof
    assume "replace_section d x \<in> set (map (replace_section d) ys)"
    then obtain y where y: "y \<in> set ys" "replace_section d y = replace_section d x" by auto
    then have "xml_text y = xml_text x" by (metis replace_keeps_text(2))
    then show False using h(2) y(1) x by auto
  qed
  have "remove1 x pool = ys @ zs" using a h(1) x by (simp add: remove1_append)
  moreover have "remove1 (replace_section d x) (map (replace_section d) pool)
        = map (replace_section d) ys @ map (replace_section d) zs"
    using b h(1) x by (simp add: remove1_append del: set_map)
  ultimately show ?thesis by simp
qed

lemma replace_alignment_simps [simp]:
  "matches (replace_alignment c d st) = map (replace_matched c d) (matches st)"
  "unmatched_word (replace_alignment c d st) = map (replace_content c) (unmatched_word st)"
  "unmatched_xml (replace_alignment c d st) = map (replace_section d) (unmatched_xml st)"
  by (simp_all add: replace_alignment_def)

lemma match_loop_replace:
  "match_loop fz thr (map (replace_content c) ws) (replace_alignment c d st) =
     map_sum id (replace_alignment c d) (match_loop fz thr ws st)"
proof (induction ws arbitrary: st)
  case Nil
  then show ?case by simp
next
  case (Cons w ws)
  let ?W = "replace_content c" and ?X = "replace_section d"
  note fr = find_best_match_replace[of fz thr c w d "unmatched_xml st"]
  show ?case
  proof (cases "find_best_match fz thr w (unmatched_xml st)")
    case None
    then have n: "find_best_match fz thr (?W w) (unmatched_xml (replace_alignment c d st)) = None"
      using fr by simp
    have "(replace_alignment c d st)\<lparr>unmatched_word :=
             unmatched_word (replace_alignment c d st) @ [?W w]\<rparr>
          = replace_alignment c d (st\<lparr>unmatched_word := unmatched_word st @ [w]\<rparr>)"
      by (simp add: replace_alignment_def)
    then show ?thesis
      using Cons.IH[of "st\<lparr>unmatched_word := unmatched_word st @ [w]\<rparr>"]
      by (simp only: list.map match_loop_unmatched[OF None] match_loop_unmatched[OF n])
  next
    case (Some bs)
    obtain b s where bs: "bs = (b, s)" by (cases bs)
    show ?thesis
    proof (cases b)
      case None
      with Some bs have o: "find_best_match fz thr w (unmatched_xml st) = Some (None, s)" by simp
      then have n: "find_best_match fz thr (?W w) (unmatched_xml (replace_alignment c d st))
           = Some (None, s)"
        using fr by simp
      show ?thesis
        by (simp only: list.map match_loop_raises[OF o] match_loop_raises[OF n]) simp
    next
      case (Some x)
      with \<open>find_best_match fz thr w (unmatched_xml st) = Some bs\<close> bs
      have o: "find_best_match fz thr w (unmatched_xml st) = Some (Some x, s)" by simp
      then have n: "find_best_match fz thr (?W w) (unmatched_xml (replace_alignment c d st))
           = Some (Some (?X x), s)"
        using fr by simp
      let ?st = "st\<lparr>matches := matches st @
                  [\<lparr>word_question = w, xml_question = x, similarity_score = s\<rparr>],
               unmatched_xml := remove1 x (unmatched_xml st)\<rparr>"
      have "(replace_alignment c d st)\<lparr>matches := matches (replace_alignment c d st) @
                  [\<lparr>word_question = ?W w, xml_question = ?X x, similarity_score = s\<rparr>],
               unmatched_xml := remove1 (?X x) (unmatched_xml (replace_alignment c d st))\<rparr>
            = replace_alignment c d ?st"
        using remove1_first_best[OF o, of d]
        by (simp add: replace_alignment_def replace_matched_def)
      then show ?thesis
        using Cons.IH[of ?st]
        by (simp only: list.map match_loop_matched[OF o] match_loop_matched[OF n])
    qed
  qed
qed

text \<open>
  C10. The score of a pair of units is computed from their two question texts only:
  giving every unit another content block changes neither the candidate that
  \<open>find_best_match\<close> selects nor its score, and the aligner returns the same matches and
  the same leftovers, up to the content blocks that were replaced.
\<close>

theorem content_blocks_do_not_matter:
  "find_best_match fz thr (replace_content c w) (map (replace_section d) pool) =
     map_option (\<lambda>(b, s). (map_option (replace_section d) b, s)) (find_best_match fz thr w pool)
   \<and> match_questions fz thr (map (replace_content c) ws) (map (replace_section d) xs) =
     map_sum id (replace_alignment c d) (match_questions fz thr ws xs)"
proof
  show "find_best_match fz thr (replace_content c w) (map (replace_section d) pool) =
     map_option (\<lambda>(b, s). (map_option (replace_section d) b, s)) (find_best_match fz thr w pool)"
    by (rule find_best_match_replace)
  have e: "\<lparr>matches = [], unmatched_word = [], unmatched_xml = map (replace_section d) xs\<rparr>
        = replace_alignment c d \<lparr>matches = [], unmatched_word = [], unmatched_xml = xs\<rparr>"
    by (simp add: replace_alignment_def)
  show "match_questions fz thr (map (replace_content c) ws) (map (replace_section d) xs) =
     map_sum id (replace_alignment c d) (match_questions fz thr ws xs)"
    unfolding match_questions_def e by (rule match_loop_replace)
qed

subsection \<open>One round of the aligner\<close>

text \<open>
  For a positive threshold a round of the aligner does what the specification says: the
  first candidate of highest score is taken from the pool when its score reaches the
  threshold, and otherwise the Word unit is listed as unmatched and the pool is left as
  it is. When the pool is in the order of the sequence indices, the candidate taken has
  the least index among those of highest score.
\<close>

lemma positive_threshold_round:
  assumes "0 < thr"
  shows "(\<exists>ys x zs. unmatched_xml st = ys @ x # zs
            \<and> (\<forall>y\<in>set ys. calculate_similarity fz (word_text w) (xml_text y)
                             < calculate_similarity fz (word_text w) (xml_text x))
            \<and> (\<forall>z\<in>set zs. calculate_similarity fz (word_text w) (xml_text z)
                             \<le> calculate_similarity fz (word_text w) (xml_text x))
            \<and> thr \<le> calculate_similarity fz (word_text w) (xml_text x)
            \<and> (sorted_wrt (<) (map xml_index (unmatched_xml st)) \<longrightarrow>
                 (\<forall>y\<in>set (unmatched_xml st).
                    calculate_similarity fz (word_text w) (xml_text y)
                      = calculate_similarity fz (word_text w) (xml_text x)
                    \<longrightarrow> xml_index x \<le> xml_index y))
            \<and> match_loop fz thr (w # rest) st =
                match_loop fz thr rest
                  (st\<lparr>matches := matches st @
                         [\<lparr>word_question = w, xml_question = x,
                           similarity_score = calculate_similarity fz (word_text w) (xml_text x)\<rparr>],
                      unmatched_xml := ys @ zs\<rparr>))
       \<or> ((\<forall>x\<in>set (unmatched_xml st). calculate_similarity fz (word_text w) (xml_text x) < thr)
            \<and> match_loop fz thr (w # rest) st =
                match_loop fz thr rest (st\<lparr>unmatched_word := unmatched_word st @ [w]\<rparr>))"
proof -
  let ?sc = "\<lambda>y. calculate_similarity fz (word_text w) (xml_text y)"
  let ?pool = "unmatched_xml st"
  from find_best_match_cases[of fz thr w ?pool] assms
  consider (none) "find_best_match fz thr w ?pool = None" "\<forall>x\<in>set ?pool. ?sc x < thr"
    | (best) ys x zs where "?pool = ys @ x # zs" "\<forall>y\<in>set ys. ?sc y < ?sc x"
        "\<forall>z\<in>set zs. ?sc z \<le> ?sc x"
        "find_best_match fz thr w ?pool = (if thr \<le> ?sc x then Some (Some x, ?sc x) else None)"
    by auto
  then show ?thesis
  proof cases
    case none
    then show ?thesis using match_loop_unmatched[OF none(1)] by blast
  next
    case best
    show ?thesis
    proof (cases "thr \<le> ?sc x")
      case True
      with best(4) have f: "find_best_match fz thr w ?pool = Some (Some x, ?sc x)" by simp
      have "x \<notin> set ys" using best(2) by auto
      then have r: "remove1 x ?pool = ys @ zs" using best(1) by (simp add: remove1_append)
      have idx: "\<forall>y\<in>set ?pool. ?sc y = ?sc x \<longrightarrow> xml_index x \<le> xml_index y"
        if "sorted_wrt (<) (map xml_index ?pool)"
      proof (intro ballI impI)
        fix y assume y: "y \<in> set ?pool" "?sc y = ?sc x"
        then have "y = x \<or> y \<in> set zs" using best(1,2) by auto
        moreover have "\<forall>z\<in>set zs. xml_index x < xml_index z"
          using that best(1) by (simp add: sorted_wrt_append)
        ultimately show "xml_index x \<le> xml_index y" by auto
      qed
      have "match_loop fz thr (w # rest) st =
                match_loop fz thr rest
                  (st\<lparr>matches := matches st @
                         [\<lparr>word_question = w, xml_question = x, similarity_score = ?sc x\<rparr>],
                      unmatched_xml := ys @ zs\<rparr>)"
        using match_loop_matched[OF f] r by simp
      with best True idx show ?thesis by blast
    next
      case False
      with best(4) have f: "find_best_match fz thr w ?pool = None" by simp
      have "\<forall>x\<in>set ?pool. ?sc x < thr" using best(1,2,3) False by fastforce
      then show ?thesis using match_loop_unmatched[OF f] by blast
    qed
  qed
qed

subsection \<open>The samples\<close>

lemma sample_summary:
  "summary sample_result = ([(''Q1.'', ''q1'', 1), (''Q2.'', ''q2'', 1)], [''Q3.''], [])"
  "map xml_id sample_xmls = [''q1'', ''q2'']"
  "map number sample_words = [''Q1.'', ''Q2.'', ''Q3.'']"
  by code_simp+

lemma sample_nonempty: "sample_words \<noteq> []" "sample_xmls \<noteq> []" "distinct sample_xmls"
proof -
  show "sample_words \<noteq> []" "sample_xmls \<noteq> []" using sample_summary(2,3) by auto
  have "distinct (map xml_id sample_xmls)" by (simp add: sample_summary(2))
  then show "distinct sample_xmls" by (simp add: distinct_map)
qed

lemma summary_replace: "summary (replace_alignment c d r) = summary r"
  by (simp add: summary_def replace_matched_def replace_content_def replace_section_def comp_def)

text \<open>
  C2. The claim: for every Word unit the matcher takes the first candidate of highest
  score from the pool when that score reaches the threshold, and otherwise records the
  unit as unmatched and consumes nothing. Lemma \<open>positive_threshold_round\<close> shows this
  for every positive threshold. For a threshold of zero or less the code fails: when the
  pool is empty, or no candidate scores above zero, \<^verbatim>\<open>find_best_match\<close> returns the pair
  \<^verbatim>\<open>(None, 0.0)\<close>, and \<^verbatim>\<open>unmatched_xml.remove(None)\<close> raises \<^verbatim>\<open>ValueError\<close>. With threshold
  0 the sample of three Word questions and two structured units matches two pairs and
  then raises on the third question.
\<close>

theorem nonpositive_threshold_raises:
  "match_questions fz 0 (w # ws) [] = Inl ValueError
   \<and> find_best_match fz 0 w [] = Some (None, 0)
   \<and> match_questions exact_fuzz 0 sample_words sample_xmls = Inl ValueError
   \<and> process_survey_pair sample_lxml exact_fuzz 0 2000 ''demo''
        ''Survey\<newline>Q1. What is your age?\<newline>18-24\<newline>Q2. Where do you live?\<newline>Q3. Anything else?''
        (serialize sample_tree) = Inl ValueError"
proof -
  have a: "find_best_match fz 0 w [] = Some (None, 0)" by (simp add: find_best_match_def)
  then have b: "match_questions fz 0 (w # ws) [] = Inl ValueError"
    by (simp add: match_questions_def)
  have c: "match_questions exact_fuzz 0 sample_words sample_xmls = Inl ValueError"
    by code_simp
  have "process_survey_pair sample_lxml exact_fuzz 0 2000 ''demo''
        ''Survey\<newline>Q1. What is your age?\<newline>18-24\<newline>Q2. Where do you live?\<newline>Q3. Anything else?''
        (serialize sample_tree) = Inl ValueError"
    unfolding process_survey_pair_def sample_words_def[symmetric] sample_xmls_def[symmetric]
    using sample_nonempty c by (simp add: Let_def)
  with a b c show ?thesis by blast
qed

theorem structured_side_partition_witness:
  "match_questions exact_fuzz (4 / 5) sample_words sample_xmls = Inr sample_result
   \<and> summary sample_result = ([(''Q1.'', ''q1'', 1), (''Q2.'', ''q2'', 1)], [''Q3.''], [])
   \<and> mset (map xml_question (matches sample_result)) + mset (unmatched_xml sample_result)
       = mset sample_xmls
   \<and> distinct (map xml_question (matches sample_result) @ unmatched_xml sample_result)"
  using structured_side_partition[of exact_fuzz "4 / 5" sample_words sample_xmls sample_result]
    sample_run sample_summary(1) sample_nonempty(3)
  by simp

theorem accepted_scores_in_range_witness:
  "calculate_similarity (constant_fuzz 57 83 95) ''a'' ''b'' = 7205759403792793 / 9007199254740992
   \<and> 0 \<le> calculate_similarity (constant_fuzz 57 83 95) ''a'' ''b''
   \<and> calculate_similarity (constant_fuzz 57 83 95) ''a'' ''b'' \<le> 1
   \<and> 0 \<le> calculate_similarity exact_fuzz ''What is your age?'' ''Where do you live?''
   \<and> calculate_similarity exact_fuzz ''What is your age?'' ''Where do you live?'' \<le> 1
   \<and> map similarity_score (matches sample_result) = [1, 1]
   \<and> list_all (\<lambda>m. 4 / 5 \<le> similarity_score m \<and> similarity_score m \<le> 1) (matches sample_result)"
proof -
  have ok: "\<forall>a b. 0 \<le> ratio exact_fuzz a b \<and> ratio exact_fuzz a b \<le> 100
             \<and> 0 \<le> partial_ratio exact_fuzz a b \<and> partial_ratio exact_fuzz a b \<le> 100
             \<and> 0 \<le> token_sort_ratio exact_fuzz a b \<and> token_sort_ratio exact_fuzz a b \<le> 100"
    by (simp add: exact_fuzz_def)
  have okc: "\<forall>a b. 0 \<le> ratio (constant_fuzz 57 83 95) a b \<and> ratio (constant_fuzz 57 83 95) a b \<le> 100
             \<and> 0 \<le> partial_ratio (constant_fuzz 57 83 95) a b
             \<and> partial_ratio (constant_fuzz 57 83 95) a b \<le> 100
             \<and> 0 \<le> token_sort_ratio (constant_fuzz 57 83 95) a b
             \<and> token_sort_ratio (constant_fuzz 57 83 95) a b \<le> 100"
    by (simp add: constant_fuzz_def)
  note t = accepted_scores_in_range[OF ok, of "''What is your age?''" "''Where do you live?''"
      "4 / 5" sample_words sample_xmls sample_result]
  note c = accepted_scores_in_range[OF okc, of "''a''" "''b''"]
  have v: "calculate_similarity (constant_fuzz 57 83 95) ''a'' ''b''
        = 7205759403792793 / 9007199254740992"
    by code_simp
  have "map similarity_score (matches sample_result) = [1, 1]"
    using sample_summary(1) by (auto simp: summary_def)
  moreover have "list_all (\<lambda>m. 4 / 5 \<le> similarity_score m \<and> similarity_score m \<le> 1) (matches sample_result)"
    unfolding list_all_iff using t sample_run by blast
  ultimately show ?thesis using t c v by blast
qed

lemma empty_side_gives_no_pairs_witness:
  "process_survey_pair sample_lxml exact_fuzz 0 2000 ''demo'' ''No questions here'' (serialize sample_tree)
     = Inr \<lparr>matches = [], unmatched_word = [], unmatched_xml = sample_xmls, survey_title = ''demo''\<rparr>
   \<and> process_survey_pair sample_lxml exact_fuzz 0 2000 ''demo''
        ''Survey\<newline>Q1. What is your age?\<newline>18-24\<newline>Q2. Where do you live?\<newline>Q3. Anything else?''
        ''<survey>'' 
     = Inr \<lparr>matches = [], unmatched_word = sample_words, unmatched_xml = [], survey_title = ''demo''\<rparr>
   \<and> map number sample_words = [''Q1.'', ''Q2.'', ''Q3.''] \<and> map xml_id sample_xmls = [''q1'', ''q2'']"
proof -
  have w: "word_extract_questions 2000 ''No questions here'' = []" by code_simp
  have x: "xml_extract_questions sample_lxml ''<survey>'' = []" by code_simp
  from empty_side_gives_no_pairs[of 2000 "''No questions here''" sample_lxml exact_fuzz 0 "''demo''"
      "serialize sample_tree"] w
  have a: "process_survey_pair sample_lxml exact_fuzz 0 2000 ''demo'' ''No questions here'' (serialize sample_tree)
     = Inr \<lparr>matches = [], unmatched_word = [], unmatched_xml = sample_xmls, survey_title = ''demo''\<rparr>"
    by (simp add: sample_xmls_def)
  from empty_side_gives_no_pairs[of 2000
      "''Survey\<newline>Q1. What is your age?\<newline>18-24\<newline>Q2. Where do you live?\<newline>Q3. Anything else?''"
      sample_lxml exact_fuzz 0 "''demo''" "''<survey>''"] x
  have b: "process_survey_pair sample_lxml exact_fuzz 0 2000 ''demo''
        ''Survey\<newline>Q1. What is your age?\<newline>18-24\<newline>Q2. Where do you live?\<newline>Q3. Anything else?''
        ''<survey>'' 
     = Inr \<lparr>matches = [], unmatched_word = sample_words, unmatched_xml = [], survey_title = ''demo''\<rparr>"
    by (simp add: sample_words_def)
  from a b sample_summary(2,3) show ?thesis by blast
qed

theorem content_blocks_do_not_matter_witness:
  "map_sum id summary
     (match_questions exact_fuzz (4 / 5)
        (map (replace_content (\<lambda>q. ''x'')) sample_words)
        (map (replace_section (\<lambda>q. ''y'')) sample_xmls))
   = Inr ([(''Q1.'', ''q1'', 1), (''Q2.'', ''q2'', 1)], [''Q3.''], [])
   \<and> map_sum id summary (match_questions exact_fuzz (4 / 5) sample_words sample_xmls)
   = Inr ([(''Q1.'', ''q1'', 1), (''Q2.'', ''q2'', 1)], [''Q3.''], [])"
  using content_blocks_do_not_matter[of exact_fuzz "4 / 5" "\<lambda>q. ''x''" _ "\<lambda>q. ''y''" "[]"
      sample_words sample_xmls]
    sample_run sample_summary(1)
  by (simp add: summary_replace)

end
